theory Spec2Isabelle
  imports Main "HOL-Library.Word" "HOL-Library.AList" "HOL-Library.Multiset"
    "HOL-Library.Sublist" "HOL-Library.Char_ord" "HOL-Library.List_Lexorder"
    "HOL-Library.Product_Lexorder"
begin

section \<open>Data model of cmd/gitfame/main.go\<close>

text \<open>
  Go's \<open>int\<close> is modelled as a 64-bit word (the size it has on 64-bit targets): \<open>+=\<close> wraps,
  and the comparisons of the ranking read the word as a signed number (\<open>sint\<close>).
  A \<open>map[string]struct{}\<close> is a set of strings that may be \<open>nil\<close> (\<open>None\<close>): reading a nil
  map (\<open>range\<close>, \<open>len\<close>) behaves like reading the empty map, writing to it panics.
  A \<open>map[string]ActorStats\<close> is an association list with distinct keys, read with
  \<open>map_of\<close> and written with \<open>AList.update\<close>; a \<open>range\<close> loop visits it in list order,
  which stands for one of the iteration orders Go may choose.
\<close>

type_synonym goint = "64 word"

datatype panic = IndexOutOfRange | NilMapAssignment

record ActorStats =
  Name :: string
  Lines :: goint
  commitsSet :: "string set option"
  Commits :: goint
  Files :: goint

type_synonym stats_map = "(string \<times> ActorStats) list"

record Config =
  Repository :: string
  Revision :: string
  OrderBy :: string
  UseCommitter :: bool
  Format :: string
  Extensions :: "string list"
  Languages :: "string list"
  Exclude :: "string list"
  RestrictTo :: "string list"
  ExtensionsMap :: "string \<rightharpoonup> string list"

text \<open>The zero value \<open>ActorStats{}\<close>.\<close>

definition zeroStats :: ActorStats where
  "zeroStats = \<lparr>Name = [], Lines = 0, commitsSet = None, Commits = 0, Files = 0\<rparr>"

text \<open>What \<open>range m\<close> and \<open>len(m)\<close> see of a commit set.\<close>

definition commitsOf :: "ActorStats \<Rightarrow> string set" where
  "commitsOf st = (case commitsSet st of None \<Rightarrow> {} | Some cs \<Rightarrow> cs)"

section \<open>Library functions used by the extractor\<close>

text \<open>\<open>xs[i]\<close> on a slice: a run-time panic when the index is out of range.\<close>

definition index :: "'a list \<Rightarrow> nat \<Rightarrow> panic + 'a" where
  "index xs i = (if i < length xs then Inr (xs ! i) else Inl IndexOutOfRange)"

text \<open>
  \<open>strings.Split(s, sep)\<close> for a separator of one byte (the source passes a newline and
  a space): the result always has at least one element.
\<close>

fun Split :: "string \<Rightarrow> char \<Rightarrow> string list" where
  "Split [] sep = [] # []"
| "Split (c # cs) sep =
     (if c = sep then [] # Split cs sep
      else (case Split cs sep of
              [] \<Rightarrow> [c] # []
            | w # ws \<Rightarrow> (c # w) # ws))"

definition newline :: char where
  "newline = CHR 0x0A"

text \<open>\<open>strings.TrimPrefix\<close> and \<open>strings.HasSuffix\<close>.\<close>

definition TrimPrefix :: "string \<Rightarrow> string \<Rightarrow> string" where
  "TrimPrefix s pre = (if take (length pre) s = pre then drop (length pre) s else s)"

definition HasSuffix :: "string \<Rightarrow> string \<Rightarrow> bool" where
  "HasSuffix s suf = (length suf \<le> length s \<and> drop (length s - length suf) s = suf)"

definition isDigit :: "char \<Rightarrow> bool" where
  "isDigit c = (c \<in> set ''0123456789'')"

definition isHex :: "char \<Rightarrow> bool" where
  "isHex c = (c \<in> set ''0123456789abcdef'')"

text \<open>
  One \<open> \d+\<close> of the regular expression, read from the left: a space and a longest run of
  at least one digit; the result is what follows the run.
\<close>

definition spaceDigits :: "string \<Rightarrow> string option" where
  "spaceDigits s =
     (case s of
        [] \<Rightarrow> None
      | c # cs \<Rightarrow>
          if c = CHR '' '' \<and> takeWhile isDigit cs \<noteq> [] then Some (dropWhile isDigit cs)
          else None)"

text \<open>
  \<open>commitLineRegexp.MatchString\<close> for \<open>^\^?[a-f0-9]{40} \d+ \d+ \d+\<close>: anchored at the
  start of the line only. A digit run must be followed by a space (or may end the match,
  for the last one), so taking the longest run each time loses no match.
\<close>

definition commitLineRegexp :: "string \<Rightarrow> bool" where
  "commitLineRegexp s =
     (let s1 = (case s of c # cs \<Rightarrow> if c = CHR ''^'' then cs else s | [] \<Rightarrow> s)
      in 40 \<le> length s1 \<and> list_all isHex (take 40 s1) \<and>
         (case spaceDigits (drop 40 s1) of
            None \<Rightarrow> False
          | Some s2 \<Rightarrow>
              (case spaceDigits s2 of
                 None \<Rightarrow> False
               | Some s3 \<Rightarrow> spaceDigits s3 \<noteq> None)))"

text \<open>
  \<open>strconv.Atoi\<close>: an optional sign, then one or more decimal digits; an error (\<open>None\<close>)
  on any other text and on a value outside the range of \<open>int\<close>.
\<close>

definition digitVal :: "char \<Rightarrow> int" where
  "digitVal c = int (of_char c) - 48"

definition decimal :: "string \<Rightarrow> int" where
  "decimal ds = foldl (\<lambda>n c. 10 * n + digitVal c) 0 ds"

definition Atoi :: "string \<Rightarrow> goint option" where
  "Atoi s =
     (let neg = (s \<noteq> [] \<and> hd s = CHR ''-'');
          ds = (if s \<noteq> [] \<and> (hd s = CHR ''-'' \<or> hd s = CHR ''+'') then tl s else s)
      in if ds = [] \<or> \<not> list_all isDigit ds then None
         else (let v = (if neg then - decimal ds else decimal ds)
               in if - (2 ^ 63) \<le> v \<and> v < 2 ^ 63 then Some (word_of_int v) else None))"

section \<open>The file filter\<close>

text \<open>
  \<open>filepath.Match\<close> and \<open>strings.ToLower\<close> are parameters of the definitions that call
  them: \<open>Match pattern file\<close> is the value \<open>matched\<close> (the error is discarded by the source,
  and \<open>matched\<close> is false when there is one).
\<close>

definition matchesExtensions :: "string \<Rightarrow> string list \<Rightarrow> bool" where
  "matchesExtensions file extensions =
     (if length extensions = 0 then True
      else list_ex (\<lambda>ext. HasSuffix file ext) extensions)"

definition matchesExcludePatterns :: "(string \<Rightarrow> string \<Rightarrow> bool) \<Rightarrow> string \<Rightarrow> string list \<Rightarrow> bool" where
  "matchesExcludePatterns Match file patterns =
     (if length patterns = 0 then True
      else \<not> list_ex (\<lambda>pattern. Match pattern file) patterns)"

definition matchesRestrictToPatterns :: "(string \<Rightarrow> string \<Rightarrow> bool) \<Rightarrow> string \<Rightarrow> string list \<Rightarrow> bool" where
  "matchesRestrictToPatterns Match file patterns =
     (if length patterns = 0 then True
      else list_ex (\<lambda>pattern. Match pattern file) patterns)"

text \<open>
  \<open>filepath.Ext\<close> (with \<open>/\<close> as the separator): scanning from the end and stopping at a
  separator, the suffix that starts at the first dot met; empty when none is met.
  \<open>extFrom path n\<close> is the loop with \<open>i = n - 1\<close>.
\<close>

fun extFrom :: "string \<Rightarrow> nat \<Rightarrow> string" where
  "extFrom path 0 = []"
| "extFrom path (Suc i) =
     (if path ! i = CHR ''/'' then []
      else if path ! i = CHR ''.'' then drop i path
      else extFrom path i)"

definition Ext :: "string \<Rightarrow> string" where
  "Ext path = extFrom path (length path)"

definition matchesLanguage :: "(string \<Rightarrow> string) \<Rightarrow> string \<Rightarrow> Config \<Rightarrow> bool" where
  "matchesLanguage ToLower filePath config =
     (if length (Languages config) = 0 then True
      else (let fileExtension = Ext filePath
            in list_ex (\<lambda>allowedLang.
                  case ExtensionsMap config (ToLower allowedLang) of
                    None \<Rightarrow> False
                  | Some existedLang \<Rightarrow>
                      list_ex (\<lambda>allowedExtension. HasSuffix fileExtension allowedExtension)
                        existedLang)
                 (Languages config)))"

text \<open>
  \<open>configs.LoadExtensionsMap\<close>, from the decoded entries of \<open>language_extensions.json\<close>
  (the file itself is not part of the sources). The fields of \<open>languageExtension\<close> carry a
  prefix, since \<open>Name\<close> and \<open>Extensions\<close> are fields of other records already.
\<close>

record languageExtension =
  langName :: string
  langType :: string
  langExtensions :: "string list"

definition appendExtension :: "(string \<Rightarrow> string) \<Rightarrow> languageExtension \<Rightarrow> string \<Rightarrow>
    (string \<rightharpoonup> string list) \<Rightarrow> (string \<rightharpoonup> string list)" where
  "appendExtension ToLower lang ext extensionsMap =
     (let name = ToLower (langName lang)
      in extensionsMap(name \<mapsto> (case extensionsMap name of None \<Rightarrow> [] | Some exts \<Rightarrow> exts) @ [ext]))"

definition LoadExtensionsMap :: "(string \<Rightarrow> string) \<Rightarrow> languageExtension list \<Rightarrow> (string \<rightharpoonup> string list)" where
  "LoadExtensionsMap ToLower languages =
     fold (\<lambda>lang extensionsMap. fold (appendExtension ToLower lang) (langExtensions lang) extensionsMap)
       languages Map.empty"

text \<open>The condition under which a worker of \<open>parallelFilter\<close> sends its file.\<close>

definition passesFilter :: "(string \<Rightarrow> string) \<Rightarrow> (string \<Rightarrow> string \<Rightarrow> bool) \<Rightarrow> Config \<Rightarrow> string \<Rightarrow> bool" where
  "passesFilter ToLower Match config file =
     (matchesExtensions file (Extensions config) \<and>
      matchesExcludePatterns Match file (Exclude config) \<and>
      matchesRestrictToPatterns Match file (RestrictTo config) \<and>
      matchesLanguage ToLower file config)"

section \<open>parallelFilter as a transition system\<close>

text \<open>
  The main goroutine spawns one worker per file, after \<open>filterWg.Add(1)\<close>, and then the
  goroutine that waits for the counter to be zero and closes the channel. A worker
  evaluates the condition and sends its file if it holds (the channel buffers
  \<open>len(files)\<close> values, so a send never blocks), then runs the deferred \<open>Done\<close>.
  \<open>sent\<close> is the sequence of all values sent so far.
\<close>

datatype worker = Started string | Evaluated string | Finished string

fun fileOf :: "worker \<Rightarrow> string" where
  "fileOf (Started f) = f"
| "fileOf (Evaluated f) = f"
| "fileOf (Finished f) = f"

record filterState =
  unspawned :: "string list"
  workers :: "worker list"
  counter :: int
  sent :: "string list"
  closed :: bool

definition initFilter :: "string list \<Rightarrow> filterState" where
  "initFilter files = \<lparr>unspawned = files, workers = [], counter = 0, sent = [], closed = False\<rparr>"

inductive filterStep :: "(string \<Rightarrow> bool) \<Rightarrow> filterState \<Rightarrow> filterState \<Rightarrow> bool"
  for pass :: "string \<Rightarrow> bool" where
  spawn: "unspawned s = f # fs \<Longrightarrow>
    filterStep pass s (s\<lparr>unspawned := fs, workers := workers s @ [Started f], counter := counter s + 1\<rparr>)"
| evaluate: "i < length (workers s) \<Longrightarrow> workers s ! i = Started f \<Longrightarrow>
    filterStep pass s (s\<lparr>workers := (workers s)[i := Evaluated f],
                          sent := (if pass f then sent s @ [f] else sent s)\<rparr>)"
| finish: "i < length (workers s) \<Longrightarrow> workers s ! i = Evaluated f \<Longrightarrow>
    filterStep pass s (s\<lparr>workers := (workers s)[i := Finished f], counter := counter s - 1\<rparr>)"
| close: "unspawned s = [] \<Longrightarrow> counter s = 0 \<Longrightarrow> \<not> closed s \<Longrightarrow>
    filterStep pass s (s\<lparr>closed := True\<rparr>)"

inductive filterReach :: "(string \<Rightarrow> bool) \<Rightarrow> string list \<Rightarrow> filterState \<Rightarrow> bool"
  for pass :: "string \<Rightarrow> bool" and files :: "string list" where
  start: "filterReach pass files (initFilter files)"
| step: "filterReach pass files s \<Longrightarrow> filterStep pass s s' \<Longrightarrow> filterReach pass files s'"

section \<open>The attribution extractor: infoEmptyFile and calculateStats\<close>

text \<open>
  The two git commands are parameters, for a fixed repository and revision:
  \<open>gitLog file\<close> and \<open>gitBlame file\<close> are \<open>None\<close> when \<open>cmd.Run\<close> returns an error, and
  the bytes written to standard output otherwise.
\<close>

type_synonym command = "string \<Rightarrow> string option"

definition infoEmptyFile :: "command \<Rightarrow> string \<Rightarrow> panic + ActorStats" where
  "infoEmptyFile gitLog file =
     (case gitLog file of
        None \<Rightarrow> Inr zeroStats
      | Some out \<Rightarrow>
          (let line = Split out newline
           in case index line 0 of
                Inl p \<Rightarrow> Inl p
              | Inr commitHash \<Rightarrow>
                  (case index line 1 of
                     Inl p \<Rightarrow> Inl p
                   | Inr actor \<Rightarrow>
                       Inr \<lparr>Name = actor, Lines = 0, commitsSet = Some {commitHash},
                            Commits = 0, Files = 1\<rparr>)))"

text \<open>
  The part of the loop body after \<open>actor\<close> is known: create the entry on first sight, add
  the lines, set the name, insert the commit, store the entry.
\<close>

definition addRecord :: "string \<Rightarrow> string \<Rightarrow> goint \<Rightarrow> stats_map \<Rightarrow> panic + stats_map" where
  "addRecord actor commitHash nLines actorStats =
     (let stats = (case map_of actorStats actor of
                     None \<Rightarrow> \<lparr>Name = [], Lines = 0, commitsSet = Some {}, Commits = 0, Files = 1\<rparr>
                   | Some st \<Rightarrow> st)
      in case commitsSet stats of
           None \<Rightarrow> Inl NilMapAssignment
         | Some cs \<Rightarrow>
             Inr (AList.update actor
                    (stats\<lparr>Lines := Lines stats + nLines, Name := actor,
                            commitsSet := Some (insert commitHash cs)\<rparr>) actorStats))"

text \<open>
  \<open>actor := strings.TrimPrefix(lines[i+1], "author ")\<close>, replaced by the committer of
  \<open>lines[i+5]\<close> when \<open>config.UseCommitter\<close> is set: \<open>lines[i+1]\<close> is read in both cases.
\<close>

definition readActor :: "bool \<Rightarrow> string list \<Rightarrow> nat \<Rightarrow> panic + string" where
  "readActor useCommitter lines i =
     (case index lines (i + 1) of
        Inl p \<Rightarrow> Inl p
      | Inr l1 \<Rightarrow>
          if useCommitter then
            (case index lines (i + 5) of
               Inl p \<Rightarrow> Inl p
             | Inr l5 \<Rightarrow> Inr (TrimPrefix l5 ''committer ''))
          else Inr (TrimPrefix l1 ''author ''))"

text \<open>
  \<open>for i := 0; i < len(lines); i++\<close>, started at \<open>i\<close> with the map \<open>actorStats\<close>. When
  \<open>Atoi\<close> fails the body does \<open>i++; continue\<close>, so the loop goes on at \<open>i + 2\<close>.
\<close>

function calcLoop :: "bool \<Rightarrow> string list \<Rightarrow> nat \<Rightarrow> stats_map \<Rightarrow> panic + stats_map" where
  "calcLoop useCommitter lines i actorStats =
     (if i < length lines then
        (if commitLineRegexp (lines ! i) then
           (let parts = Split (lines ! i) (CHR '' '')
            in case index parts 0 of
                 Inl p \<Rightarrow> Inl p
               | Inr commitHash \<Rightarrow>
                   (case index parts 3 of
                      Inl p \<Rightarrow> Inl p
                    | Inr field \<Rightarrow>
                        (case Atoi field of
                           None \<Rightarrow> calcLoop useCommitter lines (i + 2) actorStats
                         | Some nLines \<Rightarrow>
                             (case readActor useCommitter lines i of
                                Inl p \<Rightarrow> Inl p
                              | Inr actor \<Rightarrow>
                                  (case addRecord actor commitHash nLines actorStats of
                                     Inl p \<Rightarrow> Inl p
                                   | Inr actorStats' \<Rightarrow>
                                       calcLoop useCommitter lines (i + 1) actorStats')))))
         else calcLoop useCommitter lines (i + 1) actorStats)
      else Inr actorStats)"
  by pat_completeness auto
termination
  by (relation "measure (\<lambda>(u, lines, i, m). length lines - i)") auto

declare calcLoop.simps [simp del]

text \<open>
  \<open>calculateStats\<close>: \<open>nil\<close> (no entry) when blame fails, the fallback entry under its own
  name when blame wrote nothing, the loop over the lines otherwise.
\<close>

definition calculateStats :: "command \<Rightarrow> command \<Rightarrow> string \<Rightarrow> Config \<Rightarrow> panic + stats_map" where
  "calculateStats gitBlame gitLog file config =
     (case gitBlame file of
        None \<Rightarrow> Inr []
      | Some out \<Rightarrow>
          if length out = 0 then
            (case infoEmptyFile gitLog file of
               Inl p \<Rightarrow> Inl p
             | Inr stats \<Rightarrow> Inr (AList.update (Name stats) stats []))
          else calcLoop (UseCommitter config) (Split out newline) 0 [])"

section \<open>aggregateStats\<close>

text \<open>
  \<open>for commit := range info.commitsSet { existing.commitsSet[commit] = struct{}{} }\<close>:
  the first assignment into a nil map panics; no assignment happens when the source set
  is nil or empty.
\<close>

definition rangeInsert :: "string set option \<Rightarrow> string set option \<Rightarrow> panic + string set option" where
  "rangeInsert existingSet infoSet =
     (case infoSet of
        None \<Rightarrow> Inr existingSet
      | Some cs \<Rightarrow>
          if cs = {} then Inr existingSet
          else (case existingSet of
                  None \<Rightarrow> Inl NilMapAssignment
                | Some es \<Rightarrow> Inr (Some (es \<union> cs))))"

text \<open>The body of \<open>for actor, info := range stats\<close>.\<close>

definition mergeActor :: "string \<times> ActorStats \<Rightarrow> stats_map \<Rightarrow> panic + stats_map" where
  "mergeActor entry finalStats =
     (case entry of (actor, info) \<Rightarrow>
        (case map_of finalStats actor of
           Some existing \<Rightarrow>
             (case rangeInsert (commitsSet existing) (commitsSet info) of
                Inl p \<Rightarrow> Inl p
              | Inr cs \<Rightarrow>
                  Inr (AList.update actor
                         (existing\<lparr>Lines := Lines existing + Lines info,
                                   Files := Files existing + Files info,
                                   commitsSet := cs\<rparr>) finalStats))
         | None \<Rightarrow> Inr (AList.update actor info finalStats)))"

text \<open>\<open>for actor, info := range stats\<close>, for one received map.\<close>

fun mergeStats :: "stats_map \<Rightarrow> stats_map \<Rightarrow> panic + stats_map" where
  "mergeStats [] finalStats = Inr finalStats"
| "mergeStats (entry # rest) finalStats =
     (case mergeActor entry finalStats of
        Inl p \<Rightarrow> Inl p
      | Inr finalStats' \<Rightarrow> mergeStats rest finalStats')"

text \<open>\<open>for stats := range resultsChan\<close>: the maps in the order they are received.\<close>

fun mergeAll :: "stats_map list \<Rightarrow> stats_map \<Rightarrow> panic + stats_map" where
  "mergeAll [] finalStats = Inr finalStats"
| "mergeAll (stats # rest) finalStats =
     (case mergeStats stats finalStats of
        Inl p \<Rightarrow> Inl p
      | Inr finalStats' \<Rightarrow> mergeAll rest finalStats')"

text \<open>\<open>stats.Commits = len(stats.commitsSet)\<close>, for every key of \<open>finalStats\<close>.\<close>

definition finalize :: "ActorStats \<Rightarrow> ActorStats" where
  "finalize st = st\<lparr>Commits := of_nat (card (commitsOf st))\<rparr>"

definition finalizeAll :: "stats_map \<Rightarrow> stats_map" where
  "finalizeAll finalStats = map (\<lambda>(actor, st). (actor, finalize st)) finalStats"

text \<open>
  A panic in one of the worker goroutines ends the process, whatever the main goroutine
  is doing: the results of all workers are collected first.
\<close>

fun collect :: "(panic + 'a) list \<Rightarrow> panic + 'a list" where
  "collect [] = Inr []"
| "collect (r # rs) =
     (case r of
        Inl p \<Rightarrow> Inl p
      | Inr x \<Rightarrow> (case collect rs of Inl p \<Rightarrow> Inl p | Inr xs \<Rightarrow> Inr (x # xs)))"

text \<open>
  \<open>aggregateStats\<close>, with \<open>calc\<close> for \<open>calculateStats(\<cdot>, config)\<close> and \<open>files\<close> the filtered
  paths in the order in which the results of their workers arrive on \<open>resultsChan\<close>.
\<close>

definition aggregateStats :: "(string \<Rightarrow> panic + stats_map) \<Rightarrow> string list \<Rightarrow> panic + stats_map" where
  "aggregateStats calc files =
     (case collect (map calc files) of
        Inl p \<Rightarrow> Inl p
      | Inr results \<Rightarrow>
          (case mergeAll results [] of
             Inl p \<Rightarrow> Inl p
           | Inr finalStats \<Rightarrow> Inr (finalizeAll finalStats)))"

section \<open>sortByConfig\<close>

text \<open>
  The closure passed to \<open>sort.Slice\<close>, on the two elements it compares. Go compares
  \<open>int\<close>s as signed numbers and strings byte by byte.
\<close>

definition actorLess :: "string \<Rightarrow> ActorStats \<Rightarrow> ActorStats \<Rightarrow> bool" where
  "actorLess orderBy a b =
     (if Commits a = Commits b \<and> Lines a = Lines b \<and> Files a = Files b then Name a < Name b
      else if orderBy = ''commits'' then
        (if Commits a \<noteq> Commits b then Commits b <s Commits a
         else if Lines a \<noteq> Lines b then Lines b <s Lines a
         else Files b <s Files a)
      else if orderBy = ''files'' then
        (if Files a \<noteq> Files b then Files b <s Files a
         else if Lines a \<noteq> Lines b then Lines b <s Lines a
         else Commits b <s Commits a)
      else
        (if Lines a \<noteq> Lines b then Lines b <s Lines a
         else if Commits a \<noteq> Commits b then Commits b <s Commits a
         else Files b <s Files a))"

text \<open>
  \<open>sort.Slice\<close> is the standard library's; an insertion sort with the same closure stands
  for it. Below, the sorted arrangement of actors with distinct names is shown to be
  unique, so every correct sorting procedure returns the same slice.
\<close>

fun insertBy :: "('a \<Rightarrow> 'a \<Rightarrow> bool) \<Rightarrow> 'a \<Rightarrow> 'a list \<Rightarrow> 'a list" where
  "insertBy lt x [] = [x]"
| "insertBy lt x (y # ys) = (if lt x y then x # y # ys else y # insertBy lt x ys)"

definition sortSlice :: "('a \<Rightarrow> 'a \<Rightarrow> bool) \<Rightarrow> 'a list \<Rightarrow> 'a list" where
  "sortSlice lt xs = foldr (insertBy lt) xs []"

definition sortByConfig :: "ActorStats list \<Rightarrow> string \<Rightarrow> ActorStats list" where
  "sortByConfig actors orderBy = sortSlice (actorLess orderBy) actors"

text \<open>\<open>outputResults\<close> up to the sort: the values of the map, ranked.\<close>

definition rankedActors :: "stats_map \<Rightarrow> Config \<Rightarrow> ActorStats list" where
  "rankedActors stats config = sortByConfig (map snd stats) (OrderBy config)"

section \<open>Notions used to state the properties\<close>

text \<open>
  The commit identifiers a per-file map attributes to an identity, and the same for the
  result of \<open>calculateStats\<close> (none when the extractor panicked).
\<close>

definition commitIDs :: "stats_map \<Rightarrow> string \<Rightarrow> string set" where
  "commitIDs stats a = (case map_of stats a of None \<Rightarrow> {} | Some st \<Rightarrow> commitsOf st)"

definition fileCommits :: "panic + stats_map \<Rightarrow> string \<Rightarrow> string set" where
  "fileCommits r a = (case r of Inl p \<Rightarrow> {} | Inr stats \<Rightarrow> commitIDs stats a)"

text \<open>The same, read off the entries that a \<open>range\<close> loop visits.\<close>

definition entryCommits :: "stats_map \<Rightarrow> string \<Rightarrow> string set" where
  "entryCommits es a = (\<Union>e \<in> set es. if fst e = a then commitsOf (snd e) else {})"

text \<open>
  The shape of the entries that \<open>calculateStats\<close> builds from attribution or fallback
  records: stored under their own name, with an allocated commit set, no commit count yet,
  and one file.
\<close>

definition partialStat :: "string \<Rightarrow> ActorStats \<Rightarrow> bool" where
  "partialStat a st = (Name st = a \<and> commitsSet st \<noteq> None \<and> Commits st = 0 \<and> Files st = 1)"

definition wfStats :: "stats_map \<Rightarrow> bool" where
  "wfStats stats = (distinct (map fst stats) \<and> list_all (\<lambda>(a, st). partialStat a st) stats)"

text \<open>
  The shape that \<open>git blame --line-porcelain\<close> gives its output: every line that matches the
  header pattern is followed by at least one more line, and by at least five when the
  committer is read.
\<close>

definition recordsInBounds :: "bool \<Rightarrow> string list \<Rightarrow> bool" where
  "recordsInBounds useCommitter lines =
     list_all (\<lambda>i. \<not> commitLineRegexp (lines ! i) \<or>
                    (if useCommitter then i + 5 else i + 1) < length lines)
       [0..<length lines]"

text \<open>
  The records of a blame output, in the words of the specification: a record starts at
  each line that matches the header pattern; it parses when its line count converts; the
  extractor is to return the map accumulated, in order, from the records that parse.
\<close>

definition recordCount :: "string \<Rightarrow> goint option" where
  "recordCount line = Atoi (Split line (CHR '' '') ! 3)"

definition parsedRecord :: "string list \<Rightarrow> nat \<Rightarrow> bool" where
  "parsedRecord lines i = (commitLineRegexp (lines ! i) \<and> recordCount (lines ! i) \<noteq> None)"

definition processRecord :: "bool \<Rightarrow> string list \<Rightarrow> nat \<Rightarrow> stats_map \<Rightarrow> panic + stats_map" where
  "processRecord useCommitter lines i actorStats =
     (case recordCount (lines ! i) of
        None \<Rightarrow> Inr actorStats
      | Some nLines \<Rightarrow>
          (case readActor useCommitter lines i of
             Inl p \<Rightarrow> Inl p
           | Inr actor \<Rightarrow> addRecord actor (Split (lines ! i) (CHR '' '') ! 0) nLines actorStats))"

fun processRecords :: "bool \<Rightarrow> string list \<Rightarrow> nat list \<Rightarrow> stats_map \<Rightarrow> panic + stats_map" where
  "processRecords useCommitter lines [] actorStats = Inr actorStats"
| "processRecords useCommitter lines (i # rest) actorStats =
     (case processRecord useCommitter lines i actorStats of
        Inl p \<Rightarrow> Inl p
      | Inr actorStats' \<Rightarrow> processRecords useCommitter lines rest actorStats')"

definition accumulateParsed :: "bool \<Rightarrow> string list \<Rightarrow> panic + stats_map" where
  "accumulateParsed useCommitter lines =
     processRecords useCommitter lines (filter (parsedRecord lines) [0..<length lines]) []"

text \<open>
  No header line whose count fails to convert is directly followed by the header line of
  a record that parses.
\<close>

definition failuresIsolated :: "string list \<Rightarrow> bool" where
  "failuresIsolated lines =
     list_all (\<lambda>i. \<not> (commitLineRegexp (lines ! i) \<and> recordCount (lines ! i) = None \<and>
                        Suc i < length lines \<and> parsedRecord lines (Suc i)))
       [0..<length lines]"

text \<open>
  The ranking in the words of the specification: the three numeric keys in the order of
  the cascade for \<open>orderBy\<close>, each descending (so negated, as signed numbers), then the name
  ascending. Tuples are compared lexicographically, strings byte by byte.
\<close>

definition rankKey :: "string \<Rightarrow> ActorStats \<Rightarrow> int \<times> int \<times> int \<times> string" where
  "rankKey orderBy a =
     (if orderBy = ''commits'' then (- sint (Commits a), - sint (Lines a), - sint (Files a), Name a)
      else if orderBy = ''files'' then (- sint (Files a), - sint (Lines a), - sint (Commits a), Name a)
      else (- sint (Lines a), - sint (Commits a), - sint (Files a), Name a))"

text \<open>
  The invariant of \<open>parallelFilter\<close>: the workers and the files still to spawn make up
  the input; the counter of the wait group is the number of workers that have not run
  \<open>Done\<close>; the values sent are the files of the workers past their evaluation that pass
  the filter; once the channel is closed nothing is left to do.
\<close>

fun isStarted :: "worker \<Rightarrow> bool" where
  "isStarted (Started f) = True"
| "isStarted (Evaluated f) = False"
| "isStarted (Finished f) = False"

fun isFinished :: "worker \<Rightarrow> bool" where
  "isFinished (Started f) = False"
| "isFinished (Evaluated f) = False"
| "isFinished (Finished f) = True"

definition evaluatedFiles :: "worker list \<Rightarrow> string list" where
  "evaluatedFiles ws = map fileOf (filter (\<lambda>w. \<not> isStarted w) ws)"

definition filterInv :: "(string \<Rightarrow> bool) \<Rightarrow> string list \<Rightarrow> filterState \<Rightarrow> bool" where
  "filterInv pass files s =
     (map fileOf (workers s) @ unspawned s = files \<and>
      counter s = int (length (filter (\<lambda>w. \<not> isFinished w) (workers s))) \<and>
      mset (sent s) = filter_mset pass (mset (evaluatedFiles (workers s))) \<and>
      (closed s \<longrightarrow> unspawned s = [] \<and> list_all isFinished (workers s)))"

text \<open>
  The language predicate in the words of the specification: the portion of the path after
  its last dot, and two strings with a non-empty common suffix (they end with the same
  byte).
\<close>

definition spec_extension :: "string \<Rightarrow> string" where
  "spec_extension path =
     (if CHR ''.'' \<in> set path then rev (takeWhile (\<lambda>c. c \<noteq> CHR ''.'') (rev path)) else [])"

definition commonSuffixNonEmpty :: "string \<Rightarrow> string \<Rightarrow> bool" where
  "commonSuffixNonEmpty s t = (s \<noteq> [] \<and> t \<noteq> [] \<and> last s = last t)"

definition spec_matchesLanguage :: "(string \<Rightarrow> string) \<Rightarrow> string \<Rightarrow> Config \<Rightarrow> bool" where
  "spec_matchesLanguage ToLower path config =
     (Languages config = [] \<or>
      list_ex (\<lambda>lang. case ExtensionsMap config (ToLower lang) of
                         None \<Rightarrow> False
                       | Some exts \<Rightarrow> list_ex (commonSuffixNonEmpty (spec_extension path)) exts)
        (Languages config))"

text \<open>
  The lines and the files that a per-file map, or the result of \<open>calculateStats\<close>,
  attributes to an identity; \<open>entrySum\<close> reads them off the entries that a \<open>range\<close> loop
  visits.
\<close>

definition fieldOf :: "(ActorStats \<Rightarrow> goint) \<Rightarrow> stats_map \<Rightarrow> string \<Rightarrow> goint" where
  "fieldOf g stats a = (case map_of stats a of None \<Rightarrow> 0 | Some st \<Rightarrow> g st)"

definition fileField :: "(ActorStats \<Rightarrow> goint) \<Rightarrow> panic + stats_map \<Rightarrow> string \<Rightarrow> goint" where
  "fileField g r a = (case r of Inl p \<Rightarrow> 0 | Inr stats \<Rightarrow> fieldOf g stats a)"

definition fileHas :: "panic + stats_map \<Rightarrow> string \<Rightarrow> bool" where
  "fileHas r a = (case r of Inl p \<Rightarrow> False | Inr stats \<Rightarrow> map_of stats a \<noteq> None)"

definition entrySum :: "(ActorStats \<Rightarrow> goint) \<Rightarrow> stats_map \<Rightarrow> string \<Rightarrow> goint" where
  "entrySum g es a = sum_list (map (\<lambda>e. if fst e = a then g (snd e) else 0) es)"

text \<open>The accumulator of the merge while every merged entry was a well-formed one.\<close>

definition accOK :: "stats_map \<Rightarrow> bool" where
  "accOK acc = (distinct (map fst acc) \<and>
     list_all (\<lambda>(a, st). Name st = a \<and> commitsSet st \<noteq> None \<and> Commits st = 0) acc)"

text \<open>The extensions registered under a key of the table, in the order of the file.\<close>

definition extsFor :: "(string \<Rightarrow> string) \<Rightarrow> languageExtension list \<Rightarrow> string \<Rightarrow> string list" where
  "extsFor ToLower languages k =
     concat (map langExtensions (filter (\<lambda>l. ToLower (langName l) = k) languages))"

text \<open>The final entry of an identity, from the results of the files.\<close>

definition expectedStat :: "(string \<Rightarrow> panic + stats_map) \<Rightarrow> string list \<Rightarrow> string \<Rightarrow> ActorStats" where
  "expectedStat calc files a =
     \<lparr>Name = a,
      Lines = sum_list (map (\<lambda>file. fileField Lines (calc file) a) files),
      commitsSet = Some (\<Union>file \<in> set files. fileCommits (calc file) a),
      Commits = of_nat (card (\<Union>file \<in> set files. fileCommits (calc file) a)),
      Files = sum_list (map (\<lambda>file. fileField Files (calc file) a) files)\<rparr>"

text \<open>
  The final element of a path and the portion of a string after its last dot; \<open>scanExt\<close> is
  the loop of \<open>filepath.Ext\<close> on the reversed prefix still to read and the suffix read.
\<close>

definition baseName :: "string \<Rightarrow> string" where
  "baseName path = rev (takeWhile (\<lambda>c. c \<noteq> CHR ''/'') (rev path))"

definition afterLastDot :: "string \<Rightarrow> string" where
  "afterLastDot s = rev (takeWhile (\<lambda>c. c \<noteq> CHR ''.'') (rev s))"

fun scanExt :: "string \<Rightarrow> string \<Rightarrow> string" where
  "scanExt [] suf = []"
| "scanExt (c # r) suf =
     (if c = CHR ''/'' then [] else if c = CHR ''.'' then c # suf else scanExt r (c # suf))"

text \<open>
  The attribution records of a blame output, read off its lines: a record starts at each
  header line whose count converts; its commit is the text before the first space of the
  header, its identity the author of the next line (the committer of the fifth line after
  the header when the committer is asked for), its lines the count. \<open>mapOfRecords\<close> is the
  per-identity map of a list of records: the lines summed, the commits collected, one
  file.
\<close>

definition recordActor :: "bool \<Rightarrow> string list \<Rightarrow> nat \<Rightarrow> string" where
  "recordActor useCommitter lines i =
     (if useCommitter then TrimPrefix (lines ! (i + 5)) ''committer ''
      else TrimPrefix (lines ! (i + 1)) ''author '')"

definition recordHash :: "string \<Rightarrow> string" where
  "recordHash line = takeWhile (\<lambda>c. c \<noteq> CHR '' '') line"

definition recordLines :: "string \<Rightarrow> goint" where
  "recordLines line = (case recordCount line of None \<Rightarrow> 0 | Some n \<Rightarrow> n)"

definition parsedRecords :: "bool \<Rightarrow> string list \<Rightarrow> (string \<times> string \<times> goint) list" where
  "parsedRecords useCommitter lines =
     map (\<lambda>i. (recordActor useCommitter lines i, recordHash (lines ! i), recordLines (lines ! i)))
       (filter (parsedRecord lines) [0..<length lines])"

definition recordStat :: "(string \<times> string \<times> goint) list \<Rightarrow> string \<Rightarrow> ActorStats" where
  "recordStat rs a =
     \<lparr>Name = a,
      Lines = sum_list (map (\<lambda>r. snd (snd r)) (filter (\<lambda>r. fst r = a) rs)),
      commitsSet = Some (set (map (\<lambda>r. fst (snd r)) (filter (\<lambda>r. fst r = a) rs))),
      Commits = 0,
      Files = 1\<rparr>"

definition mapOfRecords :: "(string \<times> string \<times> goint) list \<Rightarrow> string \<Rightarrow> ActorStats option" where
  "mapOfRecords rs a = (if a \<in> fst ` set rs then Some (recordStat rs a) else None)"

text \<open>
  Every header line is directly followed by its author line, as in the output of
  \<open>git blame --line-porcelain\<close>.
\<close>

definition authorLine :: "string \<Rightarrow> bool" where
  "authorLine l = (take 7 l = ''author '')"

definition authorLinesFollow :: "string list \<Rightarrow> bool" where
  "authorLinesFollow lines =
     list_all (\<lambda>i. \<not> commitLineRegexp (lines ! i) \<or>
                    (Suc i < length lines \<and> authorLine (lines ! Suc i)))
       [0..<length lines]"

text \<open>The map built so far is the per-identity map of the records read so far.\<close>

definition recInv :: "stats_map \<Rightarrow> (string \<times> string \<times> goint) list \<Rightarrow> bool" where
  "recInv m rs = (distinct (map fst m) \<and> map_of m = mapOfRecords rs)"

section \<open>Example data\<close>

text \<open>
  A small repository for the concrete instances below: \<open>a.go\<close> has ten lines of \<open>Dev1\<close>
  from one commit, \<open>b.go\<close> five lines of \<open>Dev1\<close> from the same commit and five of \<open>Dev2\<close>
  from another, \<open>c.go\<close> two runs of \<open>Dev1\<close> around one of \<open>Dev2\<close>, \<open>empty.txt\<close> has no
  line and was last touched by \<open>Carol\<close>. The blame output has the shape of
  \<open>git blame --line-porcelain\<close>, one group header per run of lines.
\<close>

definition unlines :: "string list \<Rightarrow> string" where
  "unlines ls = concat (map (\<lambda>l. l @ [newline]) ls)"

definition exC1 :: string where
  "exC1 = ''c1c1c1c1c1c1c1c1c1c1c1c1c1c1c1c1c1c1c1c1''"

definition exC2 :: string where
  "exC2 = ''c2c2c2c2c2c2c2c2c2c2c2c2c2c2c2c2c2c2c2c2''"

definition exRecord :: "string \<Rightarrow> string \<Rightarrow> string \<Rightarrow> string list" where
  "exRecord header author committer =
     [header, ''author '' @ author, ''author-mail <a@example.com>'', ''author-time 1700000000'',
      ''author-tz +0000'', ''committer '' @ committer, ''filename f'', CHR 0x09 # ''code'']"

definition exBlame :: command where
  "exBlame file =
     (if file = ''a.go'' then Some (unlines (exRecord (exC1 @ '' 1 1 10'') ''Dev1'' ''Bot''))
      else if file = ''b.go'' then
        Some (unlines (exRecord (exC1 @ '' 1 1 5'') ''Dev1'' ''Bot'' @
                       exRecord (exC2 @ '' 6 6 5'') ''Dev2'' ''Bot''))
      else if file = ''c.go'' then
        Some (unlines (exRecord (exC1 @ '' 1 1 2'') ''Dev1'' ''Bot'' @
                       exRecord (exC2 @ '' 3 3 3'') ''Dev2'' ''Bot'' @
                       exRecord (exC2 @ '' 6 6 4'') ''Dev1'' ''Bot''))
      else if file = ''empty.txt'' then Some []
      else None)"

definition exLog :: command where
  "exLog file = (if file = ''empty.txt'' then Some (exC2 @ [newline] @ ''Carol'') else None)"

definition exConfig :: Config where
  "exConfig = \<lparr>Repository = ''.'', Revision = ''HEAD'', OrderBy = ''lines'', UseCommitter = False,
     Format = ''tabular'', Extensions = [], Languages = [], Exclude = [], RestrictTo = [],
     ExtensionsMap = Map.empty\<rparr>"

definition exDev1 :: ActorStats where
  "exDev1 = \<lparr>Name = ''Dev1'', Lines = 15, commitsSet = Some {exC1}, Commits = 1, Files = 2\<rparr>"

definition exDev1c :: ActorStats where
  "exDev1c = \<lparr>Name = ''Dev1'', Lines = 6, commitsSet = Some {exC1, exC2}, Commits = 0, Files = 1\<rparr>"

definition exDev2c :: ActorStats where
  "exDev2c = \<lparr>Name = ''Dev2'', Lines = 3, commitsSet = Some {exC2}, Commits = 0, Files = 1\<rparr>"

definition exDev2 :: ActorStats where
  "exDev2 = \<lparr>Name = ''Dev2'', Lines = 5, commitsSet = Some {exC2}, Commits = 1, Files = 1\<rparr>"

text \<open>
  A second repository: \<open>orphan.txt\<close> and \<open>anon.txt\<close> are empty files; \<open>git log\<close> fails
  for the first and names a commit whose author name is empty for the second.
\<close>

definition exBlame2 :: command where
  "exBlame2 file = (if file = ''a.go'' then exBlame ''a.go'' else Some [])"

definition exLog2 :: command where
  "exLog2 file = (if file = ''anon.txt'' then Some (exC1 @ [newline]) else None)"

text \<open>Stand-ins for the two library functions, for the concrete instances.\<close>

definition exToLower :: "string \<Rightarrow> string" where
  "exToLower s = map (\<lambda>c. if c \<in> set ''ABCDEFGHIJKLMNOPQRSTUVWXYZ''
                            then char_of (of_char c + (32::nat)) else c) s"

definition exMatch :: "string \<Rightarrow> string \<Rightarrow> bool" where
  "exMatch pattern file = (pattern = file)"

definition exFilterConfig :: Config where
  "exFilterConfig = exConfig\<lparr>Extensions := [''.go'']\<rparr>"

definition exFilterFinal :: filterState where
  "exFilterFinal = \<lparr>unspawned = [], workers = [Finished ''a.go'', Finished ''b.md''],
                     counter = 0, sent = [''a.go''], closed = True\<rparr>"

text \<open>A small extension table.\<close>

definition exLanguages :: "languageExtension list" where
  "exLanguages =
     [\<lparr>langName = ''C'', langType = ''programming'', langExtensions = [''.c'', ''.h'']\<rparr>,
      \<lparr>langName = ''C++'', langType = ''programming'', langExtensions = [''.cpp'', ''.cc'']\<rparr>,
      \<lparr>langName = ''Go'', langType = ''programming'', langExtensions = [''.go'']\<rparr>]"

definition exLangConfig :: "string list \<Rightarrow> Config" where
  "exLangConfig langs =
     exConfig\<lparr>Languages := langs, ExtensionsMap := LoadExtensionsMap exToLower exLanguages\<rparr>"

text \<open>
  Outputs cut short: a blame output that ends with a header line, a log output without a
  newline; and the blame output of \<open>b.go\<close> by name.
\<close>

definition exBlameCut :: command where
  "exBlameCut file = Some (exC1 @ '' 1 1 1'')"

definition exLogCut :: command where
  "exLogCut file = Some exC1"

definition exOutB :: string where
  "exOutB = unlines (exRecord (exC1 @ '' 1 1 5'') ''Dev1'' ''Bot'' @
                     exRecord (exC2 @ '' 6 6 5'') ''Dev2'' ''Bot'')"

text \<open>
  A blame output whose first record has a count too large for an \<open>int\<close>: once with the
  author line of that record, once with the next header directly after its header.
\<close>

definition exOutSkip :: string where
  "exOutSkip = unlines (exRecord (exC1 @ '' 1 1 99999999999999999999'') ''Dev1'' ''Bot'' @
                        exRecord (exC2 @ '' 6 6 5'') ''Dev2'' ''Bot'')"

definition exBlameSkip :: command where
  "exBlameSkip file = Some exOutSkip"

definition exOutAdjacent :: string where
  "exOutAdjacent = unlines ((exC1 @ '' 1 1 99999999999999999999'') #
                            exRecord (exC2 @ '' 6 6 5'') ''Dev2'' ''Bot'')"

definition exBlameAdjacent :: command where
  "exBlameAdjacent file = Some exOutAdjacent"

definition exDev2s :: ActorStats where
  "exDev2s = \<lparr>Name = ''Dev2'', Lines = 5, commitsSet = Some {exC2}, Commits = 0, Files = 1\<rparr>"

text \<open>The three actors of the ranking example.\<close>

definition exBob :: ActorStats where
  "exBob = \<lparr>Name = ''Bob'', Lines = 100, commitsSet = None, Commits = 5, Files = 2\<rparr>"

definition exAlice :: ActorStats where
  "exAlice = \<lparr>Name = ''Alice'', Lines = 100, commitsSet = None, Commits = 3, Files = 2\<rparr>"

definition exZoe :: ActorStats where
  "exZoe = \<lparr>Name = ''Zoe'', Lines = 50, commitsSet = None, Commits = 9, Files = 1\<rparr>"

text \<open>The aggregate of \<open>a.go\<close>, \<open>b.go\<close> and \<open>c.go\<close>.\<close>

definition exDev1All :: ActorStats where
  "exDev1All = \<lparr>Name = ''Dev1'', Lines = 21, commitsSet = Some {exC1, exC2}, Commits = 2, Files = 3\<rparr>"

definition exDev2All :: ActorStats where
  "exDev2All = \<lparr>Name = ''Dev2'', Lines = 8, commitsSet = Some {exC2}, Commits = 1, Files = 2\<rparr>"

definition exOutC :: string where
  "exOutC = unlines (exRecord (exC1 @ '' 1 1 2'') ''Dev1'' ''Bot'' @
                     exRecord (exC2 @ '' 3 3 3'') ''Dev2'' ''Bot'' @
                     exRecord (exC2 @ '' 6 6 4'') ''Dev1'' ''Bot'')"

definition exCarolAll :: ActorStats where
  "exCarolAll = \<lparr>Name = ''Carol'', Lines = 0, commitsSet = Some {exC2}, Commits = 1, Files = 1\<rparr>"

definition exFiles :: "string list" where
  "exFiles = [''a.go'', ''b.go'', ''c.go'', ''empty.txt'']"

section \<open>Properties of the aggregation\<close>

lemma rangeInsert_commits:
  "rangeInsert (commitsSet x) (commitsSet y) = Inr cs \<Longrightarrow>
   commitsOf (z\<lparr>commitsSet := cs\<rparr>) = commitsOf x \<union> commitsOf y"
  by (auto simp: rangeInsert_def commitsOf_def split: option.splits if_splits)

lemma mergeActor_None:
  "map_of acc k = None \<Longrightarrow> mergeActor (k, info) acc = Inr (AList.update k info acc)"
  by (simp add: mergeActor_def)

lemma mergeActor_Some:
  "map_of acc k = Some existing \<Longrightarrow> mergeActor (k, info) acc =
    (case rangeInsert (commitsSet existing) (commitsSet info) of
       Inl p \<Rightarrow> Inl p
     | Inr cs \<Rightarrow>
         Inr (AList.update k
                (existing\<lparr>Lines := Lines existing + Lines info,
                          Files := Files existing + Files info,
                          commitsSet := cs\<rparr>) acc))"
  by (simp add: mergeActor_def)

lemma commitIDs_update:
  "commitIDs (AList.update k st acc) a = (if k = a then commitsOf st else commitIDs acc a)"
  by (simp add: commitIDs_def update_conv')

lemma mergeActor_commits:
  assumes "mergeActor (k, info) acc = Inr acc'"
  shows "commitIDs acc' a = commitIDs acc a \<union> (if k = a then commitsOf info else {})"
proof (cases "map_of acc k")
  case None
  then have "commitIDs acc k = {}" by (simp add: commitIDs_def)
  moreover from None assms have "acc' = AList.update k info acc" by (simp add: mergeActor_None)
  ultimately show ?thesis by (cases "k = a") (simp_all add: commitIDs_update)
next
  case (Some existing)
  then have old: "commitIDs acc k = commitsOf existing" by (simp add: commitIDs_def)
  from assms obtain cs where cs: "rangeInsert (commitsSet existing) (commitsSet info) = Inr cs"
    and acc': "acc' = AList.update k (existing\<lparr>Lines := Lines existing + Lines info,
          Files := Files existing + Files info, commitsSet := cs\<rparr>) acc"
    unfolding mergeActor_Some[OF Some]
    by (cases "rangeInsert (commitsSet existing) (commitsSet info)") simp_all
  have "commitsOf (existing\<lparr>Lines := Lines existing + Lines info,
          Files := Files existing + Files info, commitsSet := cs\<rparr>) = commitsOf existing \<union> commitsOf info"
    using cs by (rule rangeInsert_commits)
  then show ?thesis using old by (cases "k = a") (simp_all add: acc' commitIDs_update)
qed

lemma mergeActor_dom:
  assumes "mergeActor (k, info) acc = Inr acc'"
  shows "dom (map_of acc') = insert k (dom (map_of acc))"
proof (cases "map_of acc k")
  case None
  with assms have "acc' = AList.update k info acc" by (simp add: mergeActor_None)
  then show ?thesis by (simp add: update_conv')
next
  case (Some existing)
  from assms obtain st where "acc' = AList.update k st acc"
    unfolding mergeActor_Some[OF Some]
    by (cases "rangeInsert (commitsSet existing) (commitsSet info)") auto
  then show ?thesis by (simp add: update_conv')
qed

lemma mergeStats_commits:
  "mergeStats es acc = Inr acc' \<Longrightarrow> commitIDs acc' a = commitIDs acc a \<union> entryCommits es a"
proof (induction es arbitrary: acc)
  case Nil
  then show ?case by (simp add: entryCommits_def)
next
  case (Cons e es)
  obtain k info where e: "e = (k, info)" by (cases e)
  from Cons.prems obtain acc1 where 1: "mergeActor e acc = Inr acc1" and 2: "mergeStats es acc1 = Inr acc'"
    by (auto split: sum.splits)
  show ?case using Cons.IH[OF 2] mergeActor_commits[OF 1[unfolded e], of a]
    by (auto simp: entryCommits_def e)
qed

lemma mergeStats_dom:
  "mergeStats es acc = Inr acc' \<Longrightarrow> dom (map_of acc') = dom (map_of acc) \<union> fst ` set es"
proof (induction es arbitrary: acc)
  case Nil
  then show ?case by simp
next
  case (Cons e es)
  obtain k info where e: "e = (k, info)" by (cases e)
  from Cons.prems obtain acc1 where 1: "mergeActor e acc = Inr acc1" and 2: "mergeStats es acc1 = Inr acc'"
    by (auto split: sum.splits)
  show ?case using Cons.IH[OF 2] mergeActor_dom[OF 1[unfolded e]]
    by (auto simp: e)
qed

lemma mergeAll_commits:
  "mergeAll rs acc = Inr acc' \<Longrightarrow> commitIDs acc' a = commitIDs acc a \<union> (\<Union>r \<in> set rs. entryCommits r a)"
proof (induction rs arbitrary: acc)
  case Nil
  then show ?case by simp
next
  case (Cons r rs)
  from Cons.prems obtain acc1 where 1: "mergeStats r acc = Inr acc1" and 2: "mergeAll rs acc1 = Inr acc'"
    by (auto split: sum.splits)
  show ?case using Cons.IH[OF 2] mergeStats_commits[OF 1, of a] by auto
qed

lemma entryCommits_distinct:
  assumes d: "distinct (map fst m)"
  shows "entryCommits m a = commitIDs m a"
proof (cases "map_of m a")
  case None
  have "\<And>e. e \<in> set m \<Longrightarrow> fst e \<noteq> a"
  proof
    fix e assume "e \<in> set m" "fst e = a"
    then have "a \<in> fst ` set m" by force
    with None show False by (simp add: map_of_eq_None_iff)
  qed
  then have "entryCommits m a = {}" by (simp add: entryCommits_def)
  with None show ?thesis by (simp add: commitIDs_def)
next
  case (Some st)
  have mem: "(a, st) \<in> set m" using Some by (rule map_of_SomeD)
  have uniq: "\<And>e. e \<in> set m \<Longrightarrow> fst e = a \<Longrightarrow> snd e = st"
  proof -
    fix e assume "e \<in> set m" "fst e = a"
    then have "(a, snd e) \<in> set m" using prod.collapse[of e] by simp
    then have "map_of m a = Some (snd e)" using d by simp
    with Some show "snd e = st" by simp
  qed
  have "entryCommits m a = commitsOf st"
  proof
    show "entryCommits m a \<subseteq> commitsOf st"
      using uniq by (auto simp: entryCommits_def split: if_splits)
    show "commitsOf st \<subseteq> entryCommits m a"
      using mem by (force simp: entryCommits_def)
  qed
  with Some show ?thesis by (simp add: commitIDs_def)
qed

lemma map_of_finalizeAll:
  "map_of (finalizeAll m) a = map_option finalize (map_of m a)"
  by (induction m) (auto simp: finalizeAll_def)

lemma collect_Inr:
  "collect rs = Inr xs \<Longrightarrow> rs = map Inr xs"
  by (induction rs arbitrary: xs) (auto split: sum.splits)

section \<open>Properties of the extractor\<close>

lemma calcLoop_invariant:
  assumes step: "\<And>actor commitHash nLines m m'. P m \<Longrightarrow> addRecord actor commitHash nLines m = Inr m' \<Longrightarrow> P m'"
  shows "P acc \<Longrightarrow> calcLoop u lines i acc = Inr r \<Longrightarrow> P r"
proof (induction u lines i acc rule: calcLoop.induct)
  case (1 u lines i acc)
  show ?case
  proof (cases "i < length lines")
    case False
    with "1.prems" show ?thesis by (simp add: calcLoop.simps[of u lines i acc])
  next
    case inb: True
    show ?thesis
    proof (cases "commitLineRegexp (lines ! i)")
      case False
      with inb "1.prems" have "calcLoop u lines (i + 1) acc = Inr r"
        by (simp add: calcLoop.simps[of u lines i acc])
      with "1.IH"(3)[OF inb False] "1.prems"(1) show ?thesis by simp
    next
      case re: True
      define parts where "parts = Split (lines ! i) (CHR '' '')"
      from inb re "1.prems"(2) obtain commitHash field where
        p0: "index parts 0 = Inr commitHash" and p3: "index parts 3 = Inr field"
        by (auto simp: calcLoop.simps[of u lines i acc] parts_def Let_def split: sum.splits)
      show ?thesis
      proof (cases "Atoi field")
        case None
        with inb re p0 p3 "1.prems"(2) have "calcLoop u lines (i + 2) acc = Inr r"
          by (simp add: calcLoop.simps[of u lines i acc] parts_def[symmetric])
        with "1.IH"(1)[OF inb re parts_def p0 p3 None] "1.prems"(1) show ?thesis by simp
      next
        case (Some nLines)
        with inb re p0 p3 "1.prems"(2) obtain actor m' where
          ra: "readActor u lines i = Inr actor" and
          ar: "addRecord actor commitHash nLines acc = Inr m'" and
          rest: "calcLoop u lines (i + 1) m' = Inr r"
          by (auto simp: calcLoop.simps[of u lines i acc] parts_def[symmetric] split: sum.splits)
        from step[OF "1.prems"(1) ar] have "P m'" .
        with "1.IH"(2)[OF inb re parts_def p0 p3 Some ra ar] rest show ?thesis by simp
      qed
    qed
  qed
qed

lemma addRecord_distinct:
  "distinct (map fst m) \<Longrightarrow> addRecord actor commitHash nLines m = Inr m' \<Longrightarrow> distinct (map fst m')"
  by (auto simp: addRecord_def Let_def distinct_update split: option.splits)

lemma calcLoop_distinct:
  "distinct (map fst acc) \<Longrightarrow> calcLoop u lines i acc = Inr r \<Longrightarrow> distinct (map fst r)"
  by (rule calcLoop_invariant[where P = "\<lambda>m. distinct (map fst m)"]) (rule addRecord_distinct)

lemma calculateStats_distinct:
  assumes "calculateStats gitBlame gitLog file config = Inr stats"
  shows "distinct (map fst stats)"
proof (cases "gitBlame file")
  case None
  with assms show ?thesis by (simp add: calculateStats_def)
next
  case (Some out)
  show ?thesis
  proof (cases "length out = 0")
    case True
    with Some assms obtain st where "stats = AList.update (Name st) st []"
      by (cases "infoEmptyFile gitLog file") (auto simp: calculateStats_def)
    then show ?thesis by simp
  next
    case False
    with Some assms have "calcLoop (UseCommitter config) (Split out newline) 0 [] = Inr stats"
      by (simp add: calculateStats_def)
    then show ?thesis using calcLoop_distinct[of "[]"] by simp
  qed
qed

section \<open>The commit count of an identity\<close>

text \<open>
  C1. For every identity \<open>a\<close> of the final aggregate, the finalized \<open>Commits\<close> field is the
  number of elements of the union, over all processed files, of the commit identifiers
  that the file's map attributes to \<open>a\<close>: a commit that touches several files is counted
  once.
\<close>

theorem aggregateStats_commits_union:
  assumes agg: "aggregateStats (\<lambda>file. calculateStats gitBlame gitLog file config) files = Inr finalStats"
    and a: "map_of finalStats a = Some st"
  shows "Commits st =
           of_nat (card (\<Union>file \<in> set files. fileCommits (calculateStats gitBlame gitLog file config) a))"
proof -
  let ?calc = "\<lambda>file. calculateStats gitBlame gitLog file config"
  from agg obtain results acc where
    col: "collect (map ?calc files) = Inr results" and
    mer: "mergeAll results [] = Inr acc" and
    fin: "finalStats = finalizeAll acc"
    by (auto simp: aggregateStats_def split: sum.splits)
  from col have res: "map ?calc files = map Inr results" by (rule collect_Inr)
  have each: "\<And>r. r \<in> set results \<Longrightarrow> entryCommits r a = commitIDs r a"
  proof -
    fix r assume "r \<in> set results"
    then have "Inr r \<in> set (map ?calc files)" unfolding res by simp
    then obtain f where "?calc f = Inr r" by auto
    then have "distinct (map fst r)" by (rule calculateStats_distinct)
    then show "entryCommits r a = commitIDs r a" by (rule entryCommits_distinct)
  qed
  have "(\<Union>file \<in> set files. fileCommits (?calc file) a) = (\<Union>x \<in> set (map ?calc files). fileCommits x a)"
    by simp
  also have "\<dots> = (\<Union>r \<in> set results. commitIDs r a)"
    unfolding res by (simp add: fileCommits_def)
  also have "\<dots> = (\<Union>r \<in> set results. entryCommits r a)"
    using each by simp
  also have "\<dots> = commitIDs acc a"
    using mergeAll_commits[OF mer, of a] by (simp add: commitIDs_def)
  finally have U: "(\<Union>file \<in> set files. fileCommits (?calc file) a) = commitIDs acc a" .
  from a obtain st0 where st0: "map_of acc a = Some st0" and st: "st = finalize st0"
    by (auto simp: fin map_of_finalizeAll)
  have "Commits st = of_nat (card (commitsOf st0))" by (simp add: st finalize_def)
  also have "commitsOf st0 = commitIDs acc a" by (simp add: commitIDs_def st0)
  finally show ?thesis by (simp only: U)
qed

text \<open>
  In the example, \<open>Dev1\<close> has the one commit \<open>exC1\<close> in both files, and \<open>Commits\<close> is 1.
\<close>

theorem aggregateStats_commits_union_witness:
  "aggregateStats (\<lambda>file. calculateStats exBlame exLog file exConfig) [''a.go'', ''b.go'']
     = Inr [(''Dev1'', exDev1), (''Dev2'', exDev2)] \<and>
   map_of [(''Dev1'', exDev1), (''Dev2'', exDev2)] ''Dev1'' = Some exDev1 \<and>
   Commits exDev1 =
     of_nat (card (\<Union>file \<in> set [''a.go'', ''b.go''].
                fileCommits (calculateStats exBlame exLog file exConfig) ''Dev1'')) \<and>
   Commits exDev1 = 1"
proof -
  have h1: "aggregateStats (\<lambda>file. calculateStats exBlame exLog file exConfig) [''a.go'', ''b.go'']
     = Inr [(''Dev1'', exDev1), (''Dev2'', exDev2)]"
    by code_simp
  have h2: "map_of [(''Dev1'', exDev1), (''Dev2'', exDev2)] ''Dev1'' = Some exDev1"
    by simp
  have h3: "Commits exDev1 = 1"
    by (simp add: exDev1_def)
  from h1 h2 h3 aggregateStats_commits_union[OF h1 h2] show ?thesis
    by (simp only: simp_thms)
qed

section \<open>The fallback for files without attributable lines\<close>

lemma infoEmptyFile_ok:
  assumes "gitLog file = Some out" and "Split out newline = commitHash # actor # rest"
  shows "infoEmptyFile gitLog file =
    Inr \<lparr>Name = actor, Lines = 0, commitsSet = Some {commitHash}, Commits = 0, Files = 1\<rparr>"
  using assms by (simp add: infoEmptyFile_def index_def)

lemma infoEmptyFile_failure:
  "gitLog file = None \<Longrightarrow> infoEmptyFile gitLog file = Inr zeroStats"
  by (simp add: infoEmptyFile_def)

lemma aggregateStats_single:
  assumes "calc file = Inr [(a, st)]"
  shows "aggregateStats calc [file] = Inr [(a, finalize st)]"
  using assms by (simp add: aggregateStats_def mergeActor_None finalizeAll_def)

text \<open>
  C6. When blame succeeds and writes nothing, the extractor asks \<open>git log\<close> for the last
  commit touching the file and returns exactly one entry, under the identity of that
  commit: no lines, the one commit in the set, one file. Finalized alone, the entry has
  \<open>Commits = 1\<close>. The commit and the identity are the first two newline-separated fields
  of the output of \<open>git log\<close>.
\<close>

theorem calculateStats_empty_file_fallback:
  assumes blame: "gitBlame file = Some []"
    and log: "gitLog file = Some out"
    and fields: "Split out newline = commitHash # actor # rest"
  shows "calculateStats gitBlame gitLog file config =
           Inr [(actor, \<lparr>Name = actor, Lines = 0, commitsSet = Some {commitHash},
                          Commits = 0, Files = 1\<rparr>)] \<and>
         aggregateStats (\<lambda>f. calculateStats gitBlame gitLog f config) [file] =
           Inr [(actor, \<lparr>Name = actor, Lines = 0, commitsSet = Some {commitHash},
                          Commits = 1, Files = 1\<rparr>)]"
proof -
  have 1: "calculateStats gitBlame gitLog file config =
           Inr [(actor, \<lparr>Name = actor, Lines = 0, commitsSet = Some {commitHash},
                          Commits = 0, Files = 1\<rparr>)]"
    using blame infoEmptyFile_ok[of gitLog "file" out commitHash actor rest, OF log fields] by (simp add: calculateStats_def)
  from aggregateStats_single[of "\<lambda>f. calculateStats gitBlame gitLog f config", OF 1]
  show ?thesis using 1 by (simp add: finalize_def commitsOf_def)
qed

text \<open>The empty file last touched by \<open>Carol\<close> yields \<open>Carol\<close> with 0 lines, 1 commit, 1 file.\<close>

theorem calculateStats_empty_file_fallback_witness:
  "exBlame ''empty.txt'' = Some [] \<and>
   exLog ''empty.txt'' = Some (exC2 @ [newline] @ ''Carol'') \<and>
   Split (exC2 @ [newline] @ ''Carol'') newline = [exC2, ''Carol''] \<and>
   calculateStats exBlame exLog ''empty.txt'' exConfig =
     Inr [(''Carol'', \<lparr>Name = ''Carol'', Lines = 0, commitsSet = Some {exC2},
                          Commits = 0, Files = 1\<rparr>)] \<and>
   aggregateStats (\<lambda>f. calculateStats exBlame exLog f exConfig) [''empty.txt''] =
     Inr [(''Carol'', \<lparr>Name = ''Carol'', Lines = 0, commitsSet = Some {exC2},
                          Commits = 1, Files = 1\<rparr>)]"
proof -
  have h1: "exBlame ''empty.txt'' = Some []" by (simp add: exBlame_def)
  have h2: "exLog ''empty.txt'' = Some (exC2 @ [newline] @ ''Carol'')" by (simp add: exLog_def)
  have h3: "Split (exC2 @ [newline] @ ''Carol'') newline = [exC2, ''Carol'']" by code_simp
  from h1 h2 h3 calculateStats_empty_file_fallback[of exBlame "''empty.txt''" exLog "exC2 @ [newline] @ ''Carol''" exC2 "''Carol''" "[]" exConfig, OF h1 h2 h3] show ?thesis
    by (simp only: simp_thms)
qed

lemma calculateStats_blame_failure:
  "gitBlame file = None \<Longrightarrow> calculateStats gitBlame gitLog file config = Inr []"
  by (simp add: calculateStats_def)

text \<open>
  C7. A file whose blame or fallback query fails is to contribute nothing: an empty map,
  and an aggregate that is the one of the other files. When blame fails the map is empty.
  When the fallback query fails it is not: \<open>infoEmptyFile\<close> returns the zero value,
  \<open>calculateStats\<close> stores it under its empty name, and the aggregate of \<open>a.go\<close> and such
  a file has, besides the entry of \<open>a.go\<close>, an identity with an empty name and three zeros.
\<close>

theorem calculateStats_fallback_failure_entry:
  "calculateStats exBlame2 exLog2 ''orphan.txt'' exConfig = Inr [([], zeroStats)] \<and>
   aggregateStats (\<lambda>file. calculateStats exBlame2 exLog2 file exConfig) [''a.go''] =
     Inr [(''Dev1'', \<lparr>Name = ''Dev1'', Lines = 10, commitsSet = Some {exC1}, Commits = 1, Files = 1\<rparr>)] \<and>
   aggregateStats (\<lambda>file. calculateStats exBlame2 exLog2 file exConfig) [''a.go'', ''orphan.txt''] =
     Inr [(''Dev1'', \<lparr>Name = ''Dev1'', Lines = 10, commitsSet = Some {exC1}, Commits = 1, Files = 1\<rparr>),
          ([], zeroStats)]"
  by code_simp

section \<open>The entries built by the extractor\<close>

lemma set_update_cases:
  "e \<in> set (AList.update k v m) \<Longrightarrow> e = (k, v) \<or> e \<in> set m"
  by (induction m) (auto split: if_splits)

lemma wfStats_update:
  assumes "wfStats m" and "partialStat k v"
  shows "wfStats (AList.update k v m)"
proof -
  have "\<And>e. e \<in> set (AList.update k v m) \<Longrightarrow> (case e of (a, st) \<Rightarrow> partialStat a st)"
  proof -
    fix e assume "e \<in> set (AList.update k v m)"
    then have "e = (k, v) \<or> e \<in> set m" by (rule set_update_cases)
    then show "case e of (a, st) \<Rightarrow> partialStat a st"
      using assms by (auto simp: wfStats_def list_all_iff)
  qed
  then show ?thesis using assms(1) by (simp add: wfStats_def list_all_iff distinct_update)
qed

lemma wfStats_map_of:
  "wfStats m \<Longrightarrow> map_of m a = Some st \<Longrightarrow> partialStat a st"
  by (auto simp: wfStats_def list_all_iff dest!: map_of_SomeD)

lemma addRecord_wf:
  assumes "wfStats m"
  shows "\<exists>m'. addRecord actor commitHash nLines m = Inr m' \<and> wfStats m'"
proof (cases "map_of m actor")
  case None
  then have "addRecord actor commitHash nLines m =
    Inr (AList.update actor \<lparr>Name = actor, Lines = 0 + nLines, commitsSet = Some {commitHash},
                              Commits = 0, Files = 1\<rparr> m)"
    by (simp add: addRecord_def)
  moreover have "partialStat actor \<lparr>Name = actor, Lines = 0 + nLines, commitsSet = Some {commitHash},
                              Commits = 0, Files = 1\<rparr>"
    by (simp add: partialStat_def)
  ultimately show ?thesis using wfStats_update[OF assms] by simp
next
  case (Some st)
  with assms have p: "partialStat actor st" by (rule wfStats_map_of)
  then obtain cs where cs: "commitsSet st = Some cs" by (auto simp: partialStat_def)
  with Some have "addRecord actor commitHash nLines m =
    Inr (AList.update actor (st\<lparr>Lines := Lines st + nLines, Name := actor,
                            commitsSet := Some (insert commitHash cs)\<rparr>) m)"
    by (simp add: addRecord_def)
  moreover have "partialStat actor (st\<lparr>Lines := Lines st + nLines, Name := actor,
                            commitsSet := Some (insert commitHash cs)\<rparr>)"
    using p by (simp add: partialStat_def)
  ultimately show ?thesis using wfStats_update[OF assms] by simp
qed

lemma addRecord_wf_result:
  "wfStats m \<Longrightarrow> addRecord actor commitHash nLines m = Inr m' \<Longrightarrow> wfStats m'"
  using addRecord_wf[of m actor commitHash nLines] by auto

lemma calcLoop_wf:
  "wfStats acc \<Longrightarrow> calcLoop u lines i acc = Inr r \<Longrightarrow> wfStats r"
  by (rule calcLoop_invariant[where P = wfStats]) (rule addRecord_wf_result)

lemma calculateStats_wf:
  assumes res: "calculateStats gitBlame gitLog file config = Inr stats"
    and ok: "gitBlame file \<noteq> Some [] \<or> gitLog file \<noteq> None"
  shows "wfStats stats"
proof (cases "gitBlame file")
  case None
  with res show ?thesis by (simp add: calculateStats_def wfStats_def)
next
  case (Some out)
  show ?thesis
  proof (cases "length out = 0")
    case True
    with Some ok obtain lg where lg: "gitLog file = Some lg" by auto
    from True Some res obtain st where st: "infoEmptyFile gitLog file = Inr st"
      and stats: "stats = AList.update (Name st) st []"
      by (cases "infoEmptyFile gitLog file") (auto simp: calculateStats_def)
    from st lg have "partialStat (Name st) st"
      by (auto simp: infoEmptyFile_def Let_def partialStat_def split: sum.splits)
    then show ?thesis by (simp add: stats wfStats_def)
  next
    case False
    with Some res have "calcLoop (UseCommitter config) (Split out newline) 0 [] = Inr stats"
      by (simp add: calculateStats_def)
    moreover have "wfStats []" by (simp add: wfStats_def)
    ultimately show ?thesis by (rule calcLoop_wf[rotated])
  qed
qed

section \<open>Index reads of the extractor\<close>

lemma Split_nonempty: "Split s c \<noteq> []"
  by (induction s) (auto split: list.splits)

lemma length_Split: "length (Split s c) = Suc (length (filter (\<lambda>x. x = c) s))"
proof (induction s)
  case Nil
  then show ?case by simp
next
  case (Cons x xs)
  then show ?case using Split_nonempty[of xs c]
    by (cases "Split xs c") auto
qed

lemma spaceDigits_spaces:
  assumes "spaceDigits s = Some t"
  shows "Suc (length (filter (\<lambda>x. x = CHR '' '') t)) \<le> length (filter (\<lambda>x. x = CHR '' '') s)"
proof -
  from assms obtain cs where s: "s = CHR '' '' # cs" and t: "t = dropWhile isDigit cs"
    by (auto simp: spaceDigits_def split: list.splits if_splits)
  have "length (filter (\<lambda>x. x = CHR '' '') (dropWhile isDigit cs))
        \<le> length (filter (\<lambda>x. x = CHR '' '') (takeWhile isDigit cs @ dropWhile isDigit cs))"
    unfolding filter_append by simp
  then show ?thesis by (simp add: s t)
qed

lemma filter_drop_le: "length (filter P (drop n xs)) \<le> length (filter P xs)"
proof -
  have "length (filter P (drop n xs)) \<le> length (filter P (take n xs @ drop n xs))"
    unfolding filter_append by simp
  then show ?thesis by simp
qed

lemma commitLineRegexp_spaces:
  assumes "commitLineRegexp s"
  shows "3 \<le> length (filter (\<lambda>x. x = CHR '' '') s)"
proof -
  define s1 where "s1 = (case s of c # cs \<Rightarrow> if c = CHR ''^'' then cs else s | [] \<Rightarrow> s)"
  from assms obtain s2 s3 s4 where
    a: "spaceDigits (drop 40 s1) = Some s2" and b: "spaceDigits s2 = Some s3" and c: "spaceDigits s3 = Some s4"
    by (auto simp: commitLineRegexp_def s1_def[symmetric] Let_def split: option.splits)
  from spaceDigits_spaces[OF a] spaceDigits_spaces[OF b] spaceDigits_spaces[OF c]
  have "3 \<le> length (filter (\<lambda>x. x = CHR '' '') (drop 40 s1))" by simp
  also have "\<dots> \<le> length (filter (\<lambda>x. x = CHR '' '') s1)" by (rule filter_drop_le)
  also have "\<dots> \<le> length (filter (\<lambda>x. x = CHR '' '') s)"
    by (simp add: s1_def split: list.splits)
  finally show ?thesis .
qed

lemma commitLineRegexp_parts:
  "commitLineRegexp s \<Longrightarrow> 4 \<le> length (Split s (CHR '' ''))"
  using commitLineRegexp_spaces[of s] by (simp add: length_Split)

lemma recordsInBounds_at:
  "recordsInBounds u lines \<Longrightarrow> i < length lines \<Longrightarrow> commitLineRegexp (lines ! i) \<Longrightarrow>
   (if u then i + 5 else i + 1) < length lines"
  by (auto simp: recordsInBounds_def list_all_iff)

lemma readActor_in_bounds:
  assumes "(if u then i + 5 else i + 1) < length lines"
  shows "\<exists>actor. readActor u lines i = Inr actor"
  using assms by (cases u) (simp_all add: readActor_def index_def)

lemma calcLoop_total:
  "recordsInBounds u lines \<Longrightarrow> wfStats acc \<Longrightarrow> \<exists>r. calcLoop u lines i acc = Inr r"
proof (induction u lines i acc rule: calcLoop.induct)
  case (1 u lines i acc)
  show ?case
  proof (cases "i < length lines")
    case False
    then show ?thesis by (simp add: calcLoop.simps[of u lines i acc])
  next
    case inb: True
    show ?thesis
    proof (cases "commitLineRegexp (lines ! i)")
      case False
      with inb have "calcLoop u lines i acc = calcLoop u lines (i + 1) acc"
        by (simp add: calcLoop.simps[of u lines i acc])
      with "1.IH"(3)[OF inb False "1.prems"(1)] "1.prems"(2) show ?thesis by simp
    next
      case re: True
      define parts where "parts = Split (lines ! i) (CHR '' '')"
      have len: "4 \<le> length parts" using re by (simp add: parts_def commitLineRegexp_parts)
      then have p0: "index parts 0 = Inr (parts ! 0)" and p3: "index parts 3 = Inr (parts ! 3)"
        by (auto simp add: index_def)
      show ?thesis
      proof (cases "Atoi (parts ! 3)")
        case None
        with inb re p0 p3 have "calcLoop u lines i acc = calcLoop u lines (i + 2) acc"
          by (simp add: calcLoop.simps[of u lines i acc] parts_def[symmetric])
        with "1.IH"(1)[OF inb re parts_def p0 p3 None "1.prems"(1)] "1.prems"(2) show ?thesis by simp
      next
        case (Some nLines)
        from recordsInBounds_at[OF "1.prems"(1) inb re] obtain actor where
          ra: "readActor u lines i = Inr actor"
          using readActor_in_bounds by blast
        from addRecord_wf[OF "1.prems"(2)] obtain m' where
          ar: "addRecord actor (parts ! 0) nLines acc = Inr m'" and wf': "wfStats m'" by blast
        from inb re p0 p3 Some ra ar have "calcLoop u lines i acc = calcLoop u lines (i + 1) m'"
          by (simp add: calcLoop.simps[of u lines i acc] parts_def[symmetric])
        with "1.IH"(2)[OF inb re parts_def p0 p3 Some ra ar "1.prems"(1) wf'] show ?thesis by simp
      qed
    qed
  qed
qed

text \<open>
  C10, as the code has it. The extractor reads \<open>lines[i+1]\<close>, \<open>lines[i+5]\<close> and \<open>line[1]\<close>
  without a bounds check. The reads are in range, and \<open>calculateStats\<close> returns a map, on
  outputs of the shape git produces: every header line of the split blame output is
  followed by at least one more line (five when \<open>UseCommitter\<close> is set), and the log
  output has at least two newline-separated fields.
\<close>

theorem calculateStats_total_on_porcelain:
  assumes blame: "\<And>out. gitBlame file = Some out \<Longrightarrow>
                    recordsInBounds (UseCommitter config) (Split out newline)"
    and log: "\<And>out. gitLog file = Some out \<Longrightarrow> 2 \<le> length (Split out newline)"
  shows "\<exists>stats. calculateStats gitBlame gitLog file config = Inr stats"
proof (cases "gitBlame file")
  case None
  then show ?thesis by (simp add: calculateStats_def)
next
  case (Some out)
  show ?thesis
  proof (cases "length out = 0")
    case True
    have "\<exists>st. infoEmptyFile gitLog file = Inr st"
    proof (cases "gitLog file")
      case None
      then show ?thesis by (simp add: infoEmptyFile_def)
    next
      case (Some lg)
      from log[OF Some] have "index (Split lg newline) 0 = Inr (Split lg newline ! 0)"
        and "index (Split lg newline) 1 = Inr (Split lg newline ! 1)"
        by (auto simp add: index_def)
      then show ?thesis by (simp add: infoEmptyFile_def Some Let_def)
    qed
    then obtain st where "infoEmptyFile gitLog file = Inr st" ..
    with True Some show ?thesis by (simp add: calculateStats_def)
  next
    case False
    have "wfStats []" by (simp add: wfStats_def)
    from calcLoop_total[OF blame[OF Some] this, of 0] False Some show ?thesis
      by (simp add: calculateStats_def)
  qed
qed

text \<open>
  Both cases at the example: \<open>b.go\<close>, two records read by the loop, and \<open>empty.txt\<close>,
  whose commit and author come from the two fields of the log output.
\<close>

theorem calculateStats_total_on_porcelain_witness:
  "exBlame ''b.go'' = Some exOutB \<and>
   recordsInBounds (UseCommitter exConfig) (Split exOutB newline) \<and>
   exLog ''b.go'' = None \<and>
   (\<exists>stats. calculateStats exBlame exLog ''b.go'' exConfig = Inr stats) \<and>
   exBlame ''empty.txt'' = Some [] \<and>
   recordsInBounds (UseCommitter exConfig) (Split [] newline) \<and>
   exLog ''empty.txt'' = Some (exC2 @ [newline] @ ''Carol'') \<and>
   length (Split (exC2 @ [newline] @ ''Carol'') newline) = 2 \<and>
   (\<exists>stats. calculateStats exBlame exLog ''empty.txt'' exConfig = Inr stats)"
proof -
  have h1: "exBlame ''b.go'' = Some exOutB" by code_simp
  have h2: "recordsInBounds (UseCommitter exConfig) (Split exOutB newline)" by code_simp
  have h3: "exLog ''b.go'' = None" by code_simp
  have r1: "\<exists>stats. calculateStats exBlame exLog ''b.go'' exConfig = Inr stats"
  proof (rule calculateStats_total_on_porcelain)
    fix out assume "exBlame ''b.go'' = Some out"
    with h1 have "out = exOutB" by simp
    with h2 show "recordsInBounds (UseCommitter exConfig) (Split out newline)" by simp
  next
    fix out assume "exLog ''b.go'' = Some out"
    with h3 show "2 \<le> length (Split out newline)" by simp
  qed
  have k1: "exBlame ''empty.txt'' = Some []" by code_simp
  have k2: "recordsInBounds (UseCommitter exConfig) (Split [] newline)" by code_simp
  have k3: "exLog ''empty.txt'' = Some (exC2 @ [newline] @ ''Carol'')" by code_simp
  have k4: "length (Split (exC2 @ [newline] @ ''Carol'') newline) = 2" by code_simp
  have r2: "\<exists>stats. calculateStats exBlame exLog ''empty.txt'' exConfig = Inr stats"
  proof (rule calculateStats_total_on_porcelain)
    fix out assume "exBlame ''empty.txt'' = Some out"
    with k1 have "out = []" by simp
    with k2 show "recordsInBounds (UseCommitter exConfig) (Split out newline)" by simp
  next
    fix out assume "exLog ''empty.txt'' = Some out"
    with k3 have "out = exC2 @ [newline] @ ''Carol''" by simp
    with k4 show "2 \<le> length (Split out newline)" by simp
  qed
  from h1 h2 h3 r1 k1 k2 k3 k4 r2 show ?thesis by (simp only: simp_thms)
qed

text \<open>
  C10 as stated fails: a blame output that ends with a header line makes the read of
  \<open>lines[i+1]\<close> panic, and a log output without a newline makes the read of \<open>line[1]\<close>
  panic.
\<close>

theorem calculateStats_index_panic:
  "calculateStats exBlameCut exLog ''a.go'' exConfig = Inl IndexOutOfRange \<and>
   calculateStats exBlame2 exLogCut ''orphan.txt'' exConfig = Inl IndexOutOfRange"
  by code_simp

section \<open>Records that fail to parse\<close>

lemma failuresIsolated_at:
  "failuresIsolated lines \<Longrightarrow> i < length lines \<Longrightarrow> commitLineRegexp (lines ! i) \<Longrightarrow>
   recordCount (lines ! i) = None \<Longrightarrow> Suc i < length lines \<Longrightarrow> \<not> parsedRecord lines (Suc i)"
  by (auto simp: failuresIsolated_def list_all_iff)

lemma filter_upt_skip:
  assumes "\<not> P i"
  shows "filter P [i..<n] = filter P [Suc i..<n]"
proof (cases "i < n")
  case True
  then show ?thesis using assms by (simp add: upt_conv_Cons)
next
  case False
  then show ?thesis by simp
qed

lemma calcLoop_processRecords:
  "failuresIsolated lines \<Longrightarrow>
   calcLoop u lines i acc = processRecords u lines (filter (parsedRecord lines) [i..<length lines]) acc"
proof (induction u lines i acc rule: calcLoop.induct)
  case (1 u lines i acc)
  show ?case
  proof (cases "i < length lines")
    case False
    then show ?thesis by (simp add: calcLoop.simps[of u lines i acc])
  next
    case inb: True
    show ?thesis
    proof (cases "commitLineRegexp (lines ! i)")
      case False
      then have np: "\<not> parsedRecord lines i" by (simp add: parsedRecord_def)
      from inb False have "calcLoop u lines i acc = calcLoop u lines (i + 1) acc"
        by (simp add: calcLoop.simps[of u lines i acc])
      also have "\<dots> = processRecords u lines (filter (parsedRecord lines) [Suc i..<length lines]) acc"
        using "1.IH"(3)[OF inb False "1.prems"] by simp
      finally show ?thesis by (simp add: filter_upt_skip[of "parsedRecord lines" i, OF np])
    next
      case re: True
      define parts where "parts = Split (lines ! i) (CHR '' '')"
      have len: "4 \<le> length parts" using re by (simp add: parts_def commitLineRegexp_parts)
      then have p0: "index parts 0 = Inr (parts ! 0)" and p3: "index parts 3 = Inr (parts ! 3)"
        by (auto simp add: index_def)
      show ?thesis
      proof (cases "Atoi (parts ! 3)")
        case None
        then have rc: "recordCount (lines ! i) = None" by (simp add: recordCount_def parts_def)
        then have np: "\<not> parsedRecord lines i" by (simp add: parsedRecord_def)
        have np': "\<not> parsedRecord lines (Suc i) \<or> \<not> Suc i < length lines"
          using failuresIsolated_at[OF "1.prems" inb re rc] by blast
        have skip2: "filter (parsedRecord lines) [Suc i..<length lines] =
                     filter (parsedRecord lines) [Suc (Suc i)..<length lines]"
          using np' by (cases "Suc i < length lines") (simp_all add: upt_conv_Cons)
        from inb re p0 p3 None have "calcLoop u lines i acc = calcLoop u lines (i + 2) acc"
          by (simp add: calcLoop.simps[of u lines i acc] parts_def[symmetric])
        also have "\<dots> = processRecords u lines (filter (parsedRecord lines) [Suc (Suc i)..<length lines]) acc"
          using "1.IH"(1)[OF inb re parts_def p0 p3 None "1.prems"] by simp
        finally show ?thesis by (simp add: filter_upt_skip[of "parsedRecord lines" i, OF np] skip2)
      next
        case (Some nLines)
        then have rc: "recordCount (lines ! i) = Some nLines" by (simp add: recordCount_def parts_def)
        with re have pr: "parsedRecord lines i" by (simp add: parsedRecord_def)
        have fl: "filter (parsedRecord lines) [i..<length lines] =
                  i # filter (parsedRecord lines) [Suc i..<length lines]"
          using inb pr by (simp add: upt_conv_Cons)
        show ?thesis
        proof (cases "readActor u lines i")
          case (Inl p)
          with inb re p0 p3 Some have "calcLoop u lines i acc = Inl p"
            by (simp add: calcLoop.simps[of u lines i acc] parts_def[symmetric])
          moreover from Inl rc have "processRecord u lines i acc = Inl p"
            by (simp add: processRecord_def)
          ultimately show ?thesis by (simp add: fl)
        next
          case ra: (Inr actor)
          show ?thesis
          proof (cases "addRecord actor (parts ! 0) nLines acc")
            case (Inl p)
            with inb re p0 p3 Some ra have "calcLoop u lines i acc = Inl p"
              by (simp add: calcLoop.simps[of u lines i acc] parts_def[symmetric])
            moreover from Inl rc ra have "processRecord u lines i acc = Inl p"
              by (simp add: processRecord_def parts_def)
            ultimately show ?thesis by (simp add: fl)
          next
            case ar: (Inr m')
            with inb re p0 p3 Some ra have "calcLoop u lines i acc = calcLoop u lines (i + 1) m'"
              by (simp add: calcLoop.simps[of u lines i acc] parts_def[symmetric])
            also have "\<dots> = processRecords u lines (filter (parsedRecord lines) [Suc i..<length lines]) m'"
              using "1.IH"(2)[OF inb re parts_def p0 p3 Some ra ar "1.prems"] by simp
            finally have a: "calcLoop u lines i acc =
              processRecords u lines (filter (parsedRecord lines) [Suc i..<length lines]) m'" .
            from ar rc ra have "processRecord u lines i acc = Inr m'"
              by (simp add: processRecord_def parts_def)
            with a show ?thesis by (simp add: fl)
          qed
        qed
      qed
    qed
  qed
qed

text \<open>
  The loop and the records. When the count of a header line fails to convert, the loop
  skips that line and the line after it, and goes on with the rest of the file; when the
  line after it is not the header of a record that parses, the result is the one of
  processing, in order, the records that parse.
\<close>

lemma calculateStats_accumulateParsed:
  assumes "gitBlame file = Some out" and "out \<noteq> []"
    and "failuresIsolated (Split out newline)"
  shows "calculateStats gitBlame gitLog file config =
           accumulateParsed (UseCommitter config) (Split out newline)"
  using assms calcLoop_processRecords[OF assms(3), of "UseCommitter config" 0 "[]"]
  by (simp add: calculateStats_def accumulateParsed_def)

text \<open>
  In the output of git the line after a header is the author line of its record, which is
  no header: the line skipped with a failed header belongs to the failed record.
\<close>

lemma Split_first: "Split s c ! 0 = takeWhile (\<lambda>x. x \<noteq> c) s"
proof (induction s)
  case Nil
  then show ?case by simp
next
  case (Cons x xs)
  then show ?case using Split_nonempty[of xs c] by (cases "Split xs c") auto
qed

lemma authorLine_not_header:
  assumes "authorLine l"
  shows "\<not> commitLineRegexp l"
proof -
  have "l = take 7 l @ drop 7 l" by simp
  with assms have l: "l = ''author '' @ drop 7 l" by (simp add: authorLine_def)
  have nu: "\<not> isHex (CHR ''u'')" by (simp add: isHex_def)
  have "\<not> commitLineRegexp (''author '' @ drop 7 l)"
    by (simp add: commitLineRegexp_def Let_def nu)
  with l show ?thesis by simp
qed

lemma authorLinesFollow_isolated:
  assumes "authorLinesFollow lines"
  shows "failuresIsolated lines"
proof -
  have "\<And>i. i < length lines \<Longrightarrow> commitLineRegexp (lines ! i) \<Longrightarrow> \<not> parsedRecord lines (Suc i)"
  proof -
    fix i assume "i < length lines" "commitLineRegexp (lines ! i)"
    with assms have "authorLine (lines ! Suc i)"
      by (auto simp: authorLinesFollow_def list_all_iff)
    then have "\<not> commitLineRegexp (lines ! Suc i)" by (rule authorLine_not_header)
    then show "\<not> parsedRecord lines (Suc i)" by (simp add: parsedRecord_def)
  qed
  then show ?thesis by (auto simp: failuresIsolated_def list_all_iff)
qed

lemma readActor_recordActor:
  assumes "(if u then i + 5 else i + 1) < length lines"
  shows "readActor u lines i = Inr (recordActor u lines i)"
  using assms by (cases u) (simp_all add: readActor_def index_def recordActor_def)

lemma mapOfRecords_snoc_other:
  "b \<noteq> a \<Longrightarrow> mapOfRecords (rs @ [(a, h, n)]) b = mapOfRecords rs b"
  by (simp add: mapOfRecords_def recordStat_def)

lemma mapOfRecords_snoc_new:
  assumes "mapOfRecords rs a = None"
  shows "mapOfRecords (rs @ [(a, h, n)]) a =
    Some \<lparr>Name = a, Lines = n, commitsSet = Some {h}, Commits = 0, Files = 1\<rparr>"
proof -
  from assms have "a \<notin> fst ` set rs" by (simp add: mapOfRecords_def split: if_splits)
  then have "filter (\<lambda>r. fst r = a) rs = []" by (auto simp: filter_empty_conv)
  then show ?thesis by (simp add: mapOfRecords_def recordStat_def)
qed

lemma mapOfRecords_snoc_old:
  assumes "mapOfRecords rs a = Some st"
  shows "\<exists>cs. commitsSet st = Some cs \<and> mapOfRecords (rs @ [(a, h, n)]) a =
    Some (st\<lparr>Lines := Lines st + n, Name := a, commitsSet := Some (insert h cs)\<rparr>)"
proof -
  from assms have st: "st = recordStat rs a" by (simp add: mapOfRecords_def split: if_splits)
  show ?thesis by (simp add: st mapOfRecords_def recordStat_def)
qed

lemma addRecord_recInv:
  assumes inv: "recInv m rs"
  shows "\<exists>m'. addRecord a h n m = Inr m' \<and> recInv m' (rs @ [(a, h, n)])"
proof -
  from inv have d: "distinct (map fst m)" and mo: "map_of m = mapOfRecords rs"
    by (simp_all add: recInv_def)
  show ?thesis
  proof (cases "map_of m a")
    case None
    let ?st = "\<lparr>Name = a, Lines = n, commitsSet = Some {h}, Commits = 0, Files = 1\<rparr>"
    from None have ar: "addRecord a h n m = Inr (AList.update a ?st m)" by (simp add: addRecord_def)
    from None mo have "mapOfRecords rs a = None" by simp
    then have new: "mapOfRecords (rs @ [(a, h, n)]) a = Some ?st" by (rule mapOfRecords_snoc_new)
    have "map_of (AList.update a ?st m) = mapOfRecords (rs @ [(a, h, n)])"
    proof (rule ext)
      fix b
      show "map_of (AList.update a ?st m) b = mapOfRecords (rs @ [(a, h, n)]) b"
        by (cases "b = a") (simp_all add: update_conv' new mapOfRecords_snoc_other mo)
    qed
    with d ar show ?thesis by (simp add: recInv_def distinct_update)
  next
    case (Some st)
    with mo have "mapOfRecords rs a = Some st" by simp
    from mapOfRecords_snoc_old[OF this, of h n] obtain cs where
      cs: "commitsSet st = Some cs" and
      new: "mapOfRecords (rs @ [(a, h, n)]) a =
        Some (st\<lparr>Lines := Lines st + n, Name := a, commitsSet := Some (insert h cs)\<rparr>)"
      by blast
    let ?st = "st\<lparr>Lines := Lines st + n, Name := a, commitsSet := Some (insert h cs)\<rparr>"
    from Some cs have ar: "addRecord a h n m = Inr (AList.update a ?st m)" by (simp add: addRecord_def)
    have "map_of (AList.update a ?st m) = mapOfRecords (rs @ [(a, h, n)])"
    proof (rule ext)
      fix b
      show "map_of (AList.update a ?st m) b = mapOfRecords (rs @ [(a, h, n)]) b"
        by (cases "b = a") (simp_all add: update_conv' new mapOfRecords_snoc_other mo)
    qed
    with d ar show ?thesis by (simp add: recInv_def distinct_update)
  qed
qed

lemma processRecords_recInv:
  assumes ok: "\<And>i. i \<in> set is \<Longrightarrow> parsedRecord lines i \<and> (if u then i + 5 else i + 1) < length lines"
  shows "recInv m rs \<Longrightarrow>
    \<exists>m'. processRecords u lines is m = Inr m' \<and>
      recInv m' (rs @ map (\<lambda>i. (recordActor u lines i, recordHash (lines ! i), recordLines (lines ! i))) is)"
  using ok
proof (induction "is" arbitrary: m rs)
  case Nil
  then show ?case by simp
next
  case (Cons i rest)
  from Cons.prems(2)[of i] have p: "parsedRecord lines i" and b: "(if u then i + 5 else i + 1) < length lines"
    by simp_all
  from p obtain n where n: "recordCount (lines ! i) = Some n" by (auto simp: parsedRecord_def)
  then have rl: "recordLines (lines ! i) = n" by (simp add: recordLines_def)
  have ra: "readActor u lines i = Inr (recordActor u lines i)" using b by (rule readActor_recordActor)
  have pr: "processRecord u lines i m =
      addRecord (recordActor u lines i) (recordHash (lines ! i)) n m"
    by (simp add: processRecord_def n ra Split_first recordHash_def)
  from addRecord_recInv[OF Cons.prems(1), of "recordActor u lines i" "recordHash (lines ! i)" n]
  obtain m1 where m1: "addRecord (recordActor u lines i) (recordHash (lines ! i)) n m = Inr m1"
    and inv1: "recInv m1 (rs @ [(recordActor u lines i, recordHash (lines ! i), n)])" by blast
  have "\<And>j. j \<in> set rest \<Longrightarrow> parsedRecord lines j \<and> (if u then j + 5 else j + 1) < length lines"
    using Cons.prems(2) by simp
  from Cons.IH[OF inv1 this] obtain m' where
    "processRecords u lines rest m1 = Inr m'" and
    "recInv m' ((rs @ [(recordActor u lines i, recordHash (lines ! i), n)]) @
        map (\<lambda>i. (recordActor u lines i, recordHash (lines ! i), recordLines (lines ! i))) rest)"
    by blast
  then show ?case by (simp add: pr m1 rl)
qed

lemma calcLoop_records:
  assumes iso: "failuresIsolated lines" and inb: "recordsInBounds u lines"
  shows "\<exists>stats. calcLoop u lines 0 [] = Inr stats \<and> distinct (map fst stats) \<and>
           map_of stats = mapOfRecords (parsedRecords u lines)"
proof -
  have ok: "\<And>i. i \<in> set (filter (parsedRecord lines) [0..<length lines]) \<Longrightarrow>
      parsedRecord lines i \<and> (if u then i + 5 else i + 1) < length lines"
    using recordsInBounds_at[OF inb] by (auto simp: parsedRecord_def)
  have "recInv [] []" by (auto simp: recInv_def mapOfRecords_def)
  from processRecords_recInv[of "filter (parsedRecord lines) [0..<length lines]" lines u "[]" "[]", OF ok this]
  obtain stats where
    "processRecords u lines (filter (parsedRecord lines) [0..<length lines]) [] = Inr stats" and
    "recInv stats (parsedRecords u lines)"
    by (auto simp: parsedRecords_def)
  then show ?thesis using calcLoop_processRecords[OF iso, of u 0 "[]"] by (auto simp: recInv_def)
qed

lemma calculateStats_records:
  assumes blame: "gitBlame file = Some out" and ne: "out \<noteq> []"
    and iso: "failuresIsolated (Split out newline)"
    and inb: "recordsInBounds (UseCommitter config) (Split out newline)"
  shows "\<exists>stats. calculateStats gitBlame gitLog file config = Inr stats \<and> distinct (map fst stats) \<and>
           map_of stats = mapOfRecords (parsedRecords (UseCommitter config) (Split out newline))"
  using calcLoop_records[OF iso inb] blame ne by (simp add: calculateStats_def)

text \<open>
  C8. On a blame output in which every header line is followed by the lines of its record
  (the author line next, and the committer line in reach when the committer is read), the
  extractor returns, whichever header lines have a count that fails to convert: those
  records are skipped, every record whose count converts is processed, and the map
  returned is the per-identity map of exactly the records that parse: for each identity
  they name, its lines summed and its commits collected over them, and no entry for any
  other identity.
\<close>

theorem calculateStats_skips_failed_record:
  assumes "gitBlame file = Some out" and "out \<noteq> []"
    and "authorLinesFollow (Split out newline)"
    and "recordsInBounds (UseCommitter config) (Split out newline)"
  shows "\<exists>stats. calculateStats gitBlame gitLog file config = Inr stats \<and> distinct (map fst stats) \<and>
           map_of stats = mapOfRecords (parsedRecords (UseCommitter config) (Split out newline))"
  using assms(1,2) authorLinesFollow_isolated[OF assms(3)] assms(4)
  by (rule calculateStats_records)

text \<open>
  A first record whose count is too large for an \<open>int\<close>, with its author line, and a
  second record that parses: the result holds the second record alone.
\<close>

theorem calculateStats_skips_failed_record_witness:
  "exBlameSkip ''a.go'' = Some exOutSkip \<and> exOutSkip \<noteq> [] \<and>
   authorLinesFollow (Split exOutSkip newline) \<and>
   recordsInBounds (UseCommitter exConfig) (Split exOutSkip newline) \<and>
   commitLineRegexp (Split exOutSkip newline ! 0) \<and>
   recordCount (Split exOutSkip newline ! 0) = None \<and>
   parsedRecords (UseCommitter exConfig) (Split exOutSkip newline) = [(''Dev2'', exC2, 5)] \<and>
   (\<exists>stats. calculateStats exBlameSkip exLog ''a.go'' exConfig = Inr stats \<and> distinct (map fst stats) \<and>
      map_of stats = mapOfRecords [(''Dev2'', exC2, 5)]) \<and>
   calculateStats exBlameSkip exLog ''a.go'' exConfig = Inr [(''Dev2'', exDev2s)]"
proof -
  have h1: "exBlameSkip ''a.go'' = Some exOutSkip" by (simp add: exBlameSkip_def)
  have h2: "exOutSkip \<noteq> []" by code_simp
  have h3: "authorLinesFollow (Split exOutSkip newline)" by code_simp
  have h4: "recordsInBounds (UseCommitter exConfig) (Split exOutSkip newline)" by code_simp
  have h5: "commitLineRegexp (Split exOutSkip newline ! 0)" by code_simp
  have h6: "recordCount (Split exOutSkip newline ! 0) = None" by code_simp
  have h7: "parsedRecords (UseCommitter exConfig) (Split exOutSkip newline) = [(''Dev2'', exC2, 5)]"
    by code_simp
  have h8: "calculateStats exBlameSkip exLog ''a.go'' exConfig = Inr [(''Dev2'', exDev2s)]"
    by code_simp
  have "\<exists>stats. calculateStats exBlameSkip exLog ''a.go'' exConfig = Inr stats \<and> distinct (map fst stats) \<and>
      map_of stats = mapOfRecords (parsedRecords (UseCommitter exConfig) (Split exOutSkip newline))"
    using h1 h2 h3 h4 by (rule calculateStats_skips_failed_record)
  then have h9: "\<exists>stats. calculateStats exBlameSkip exLog ''a.go'' exConfig = Inr stats \<and>
      distinct (map fst stats) \<and> map_of stats = mapOfRecords [(''Dev2'', exC2, 5)]"
    unfolding h7 .
  from h1 h2 h3 h4 h5 h6 h7 h9 h8 show ?thesis by (intro conjI)
qed

text \<open>
  The author line matters for the lemmas above: were a header whose count fails to
  convert directly followed by another header, the second would be skipped unread.
\<close>

lemma calcLoop_adjacent_headers:
  "calculateStats exBlameAdjacent exLog ''a.go'' exConfig = Inr [] \<and>
   accumulateParsed (UseCommitter exConfig) (Split exOutAdjacent newline) = Inr [(''Dev2'', exDev2s)]"
  by code_simp

section \<open>The ranking\<close>

lemma sint_eq_iff: "sint (x :: goint) = sint y \<longleftrightarrow> x = y"
  by (auto intro: signed_word_eqI)

lemma cascade_less:
  fixes p q r p' q' r' :: goint and n n' :: string
  shows "(if p = p' \<and> q = q' \<and> r = r' then n < n'
          else if p \<noteq> p' then p' <s p
          else if q \<noteq> q' then q' <s q
          else r' <s r)
         \<longleftrightarrow> (- sint p, - sint q, - sint r, n) < (- sint p', - sint q', - sint r', n')"
proof (cases "p = p'")
  case False
  then have "sint p \<noteq> sint p'" by (simp add: sint_eq_iff)
  with False show ?thesis by (auto simp: word_sless_alt)
next
  case p: True
  show ?thesis
  proof (cases "q = q'")
    case False
    then have "sint q \<noteq> sint q'" by (simp add: sint_eq_iff)
    with False p show ?thesis by (auto simp: word_sless_alt)
  next
    case q: True
    show ?thesis
    proof (cases "r = r'")
      case False
      then have "sint r \<noteq> sint r'" by (simp add: sint_eq_iff)
      with False p q show ?thesis by (auto simp: word_sless_alt)
    next
      case True
      with p q show ?thesis by simp
    qed
  qed
qed

lemma actorLess_rankKey: "actorLess orderBy a b \<longleftrightarrow> rankKey orderBy a < rankKey orderBy b"
proof -
  consider "orderBy = ''commits''" | "orderBy \<noteq> ''commits''" "orderBy = ''files''"
    | "orderBy \<noteq> ''commits''" "orderBy \<noteq> ''files''" by blast
  then show ?thesis
  proof cases
    case 1
    have "actorLess orderBy a b \<longleftrightarrow>
      (if Commits a = Commits b \<and> Lines a = Lines b \<and> Files a = Files b then Name a < Name b
          else if Commits a \<noteq> Commits b then Commits b <s Commits a
          else if Lines a \<noteq> Lines b then Lines b <s Lines a
          else Files b <s Files a)"
      using 1 by (simp add: actorLess_def)
    then show ?thesis unfolding cascade_less using 1 by (simp add: rankKey_def)
  next
    case 2
    have "actorLess orderBy a b \<longleftrightarrow>
      (if Files a = Files b \<and> Lines a = Lines b \<and> Commits a = Commits b then Name a < Name b
          else if Files a \<noteq> Files b then Files b <s Files a
          else if Lines a \<noteq> Lines b then Lines b <s Lines a
          else Commits b <s Commits a)"
      using 2 by (simp add: actorLess_def conj_ac)
    then show ?thesis unfolding cascade_less using 2 by (simp add: rankKey_def)
  next
    case 3
    have "actorLess orderBy a b \<longleftrightarrow>
      (if Lines a = Lines b \<and> Commits a = Commits b \<and> Files a = Files b then Name a < Name b
          else if Lines a \<noteq> Lines b then Lines b <s Lines a
          else if Commits a \<noteq> Commits b then Commits b <s Commits a
          else Files b <s Files a)"
      using 3 by (simp add: actorLess_def conj_ac)
    then show ?thesis unfolding cascade_less using 3 by (simp add: rankKey_def)
  qed
qed

lemma rankKey_eq_iff:
  "rankKey orderBy a = rankKey orderBy b \<longleftrightarrow>
   Lines a = Lines b \<and> Commits a = Commits b \<and> Files a = Files b \<and> Name a = Name b"
  by (auto simp: rankKey_def sint_eq_iff)

lemma insertBy_mset: "mset (insertBy lt x xs) = add_mset x (mset xs)"
  by (induction xs) simp_all

lemma sortSlice_mset: "mset (sortSlice lt xs) = mset xs"
  by (induction xs) (simp_all add: sortSlice_def insertBy_mset)

lemma insertBy_set: "set (insertBy lt x xs) = insert x (set xs)"
  by (induction xs) auto

lemma insertBy_sorted:
  fixes key :: "'a \<Rightarrow> 'k::linorder"
  assumes lt: "\<And>a b. lt a b \<longleftrightarrow> key a < key b"
  shows "sorted (map key xs) \<Longrightarrow> sorted (map key (insertBy lt x xs))"
proof (induction xs)
  case Nil
  then show ?case by simp
next
  case (Cons y ys)
  show ?case
  proof (cases "lt x y")
    case True
    then have "key x < key y" by (simp add: lt)
    with Cons.prems show ?thesis using True by (auto simp: less_imp_le intro: order_trans)
  next
    case False
    then have "key y \<le> key x" by (simp add: lt not_less)
    with Cons show ?thesis using False by (auto simp: insertBy_set)
  qed
qed

lemma sortSlice_sorted:
  fixes key :: "'a \<Rightarrow> 'k::linorder"
  assumes lt: "\<And>a b. lt a b \<longleftrightarrow> key a < key b"
  shows "sorted (map key (sortSlice lt xs))"
proof (induction xs)
  case Nil
  then show ?case by (simp add: sortSlice_def)
next
  case (Cons x xs)
  have "sortSlice lt (x # xs) = insertBy lt x (sortSlice lt xs)" by (simp add: sortSlice_def)
  with Cons insertBy_sorted[of lt key, OF lt] show ?case by simp
qed

lemma sortByConfig_sorted: "sorted (map (rankKey orderBy) (sortByConfig actors orderBy))"
  unfolding sortByConfig_def by (rule sortSlice_sorted) (rule actorLess_rankKey)

lemma sortByConfig_mset: "mset (sortByConfig actors orderBy) = mset actors"
  by (simp add: sortByConfig_def sortSlice_mset)

lemma sortByConfig_unique:
  assumes d: "distinct (map Name actors)"
    and s: "sorted (map (rankKey orderBy) ys)"
    and m: "mset ys = mset actors"
  shows "ys = sortByConfig actors orderBy"
proof -
  let ?zs = "sortByConfig actors orderBy"
  have set_ys: "set ys = set actors" using m by (rule mset_eq_setD)
  have set_zs: "set ?zs = set actors" using sortByConfig_mset by (rule mset_eq_setD)
  have dn: "\<And>xs. mset xs = mset actors \<Longrightarrow> distinct (map Name xs)"
  proof -
    fix xs :: "ActorStats list" assume "mset xs = mset actors"
    then have "mset (map Name xs) = mset (map Name actors)" by simp
    with d show "distinct (map Name xs)" by (metis distinct_count_atmost_1 set_mset_mset)
  qed
  have inj: "inj_on (rankKey orderBy) (set actors)"
  proof (rule inj_onI)
    fix a b assume a: "a \<in> set actors" and b: "b \<in> set actors"
      and e: "rankKey orderBy a = rankKey orderBy b"
    then have "Name a = Name b" by (simp add: rankKey_eq_iff)
    with d a b show "a = b" by (meson distinct_map inj_onD)
  qed
  have dk: "\<And>xs. mset xs = mset actors \<Longrightarrow> distinct (map (rankKey orderBy) xs)"
  proof -
    fix xs :: "ActorStats list" assume mx: "mset xs = mset actors"
    from dn[OF mx] have "distinct xs" by (simp add: distinct_map)
    moreover have "inj_on (rankKey orderBy) (set xs)" using inj mset_eq_setD[OF mx] by simp
    ultimately show "distinct (map (rankKey orderBy) xs)" by (simp add: distinct_map)
  qed
  show ?thesis
  proof (rule map_sorted_distinct_set_unique[where f = "rankKey orderBy"])
    show "inj_on (rankKey orderBy) (set ys \<union> set ?zs)" using inj by (simp add: set_ys set_zs)
    show "sorted (map (rankKey orderBy) ys)" by (rule s)
    show "distinct (map (rankKey orderBy) ys)" by (rule dk[OF m])
    show "sorted (map (rankKey orderBy) ?zs)" by (rule sortByConfig_sorted)
    show "distinct (map (rankKey orderBy) ?zs)" by (rule dk[OF sortByConfig_mset])
    show "set ys = set ?zs" by (simp add: set_ys set_zs)
  qed
qed

lemma actorLess_irrefl: "\<not> actorLess orderBy a a"
  by (simp add: actorLess_rankKey)

lemma actorLess_trans: "actorLess orderBy a b \<Longrightarrow> actorLess orderBy b c \<Longrightarrow> actorLess orderBy a c"
  unfolding actorLess_rankKey by (rule less_trans)

lemma actorLess_total:
  "actorLess orderBy a b \<or> actorLess orderBy b a \<or>
   (Lines a = Lines b \<and> Commits a = Commits b \<and> Files a = Files b \<and> Name a = Name b)"
  using less_linear[of "rankKey orderBy a" "rankKey orderBy b"]
  by (auto simp: actorLess_rankKey rankKey_eq_iff)

text \<open>
  C3. The closure of \<open>sortByConfig\<close> is the strict lexicographic order on the keys of the
  cascade: the configured key descending, then the two other numeric keys descending in
  their fixed order, then the name ascending. Two actors have the same key only if they
  agree on name and on the three numbers, so the order is total on actors with distinct
  names. The sorted slice is a permutation of the input in this order; for
  \<open>orderBy = "lines"\<close> the cascade is Lines, Commits, Files, Name, and Bob(100,5,2),
  Alice(100,3,2), Zoe(50,9,1) come out as Bob, Alice, Zoe.
\<close>

theorem sortByConfig_total_order:
  "(actorLess orderBy a b \<longleftrightarrow> rankKey orderBy a < rankKey orderBy b) \<and>
   (rankKey orderBy a = rankKey orderBy b \<longleftrightarrow>
      Lines a = Lines b \<and> Commits a = Commits b \<and> Files a = Files b \<and> Name a = Name b) \<and>
   sorted (map (rankKey orderBy) (sortByConfig actors orderBy)) \<and>
   mset (sortByConfig actors orderBy) = mset actors \<and>
   rankKey ''lines'' a = (- sint (Lines a), - sint (Commits a), - sint (Files a), Name a) \<and>
   sortByConfig [exZoe, exAlice, exBob] ''lines'' = [exBob, exAlice, exZoe] \<and>
   sortByConfig [exAlice, exBob, exZoe] ''lines'' = [exBob, exAlice, exZoe]"
proof -
  have 1: "sortByConfig [exZoe, exAlice, exBob] ''lines'' = [exBob, exAlice, exZoe]" by code_simp
  have 2: "sortByConfig [exAlice, exBob, exZoe] ''lines'' = [exBob, exAlice, exZoe]" by code_simp
  have 3: "rankKey ''lines'' a = (- sint (Lines a), - sint (Commits a), - sint (Files a), Name a)"
    by (simp add: rankKey_def)
  from 1 2 3 actorLess_rankKey rankKey_eq_iff sortByConfig_sorted sortByConfig_mset
  show ?thesis by (simp only: simp_thms)
qed

section \<open>The parallel filter stage\<close>

lemma update_split:
  assumes "i < length ws"
  shows "\<exists>A B. ws = A @ (ws ! i) # B \<and> ws[i := w'] = A @ w' # B"
proof (intro exI conjI)
  show "ws = take i ws @ (ws ! i) # drop (Suc i) ws" using assms by (rule id_take_nth_drop)
  show "ws[i := w'] = take i ws @ w' # drop (Suc i) ws" using assms by (rule upd_conv_take_nth_drop)
qed

lemma none_unfinished:
  "length (filter (\<lambda>w. \<not> isFinished w) ws) = 0 \<Longrightarrow> list_all isFinished ws"
  by (induction ws) (auto split: if_splits)

lemma filterInv_init: "filterInv pass files (initFilter files)"
  by (simp add: filterInv_def initFilter_def evaluatedFiles_def)

lemma filterInv_step:
  assumes inv: "filterInv pass files s" and st: "filterStep pass s s'"
  shows "filterInv pass files s'"
  using st
proof cases
  case (spawn f fs)
  with inv show ?thesis by (auto simp: filterInv_def evaluatedFiles_def)
next
  case (evaluate i f)
  from update_split[OF evaluate(2), of "Evaluated f"] evaluate(3) obtain A B where
    ws: "workers s = A @ Started f # B" and ws': "(workers s)[i := Evaluated f] = A @ Evaluated f # B"
    by auto
  have nc: "\<not> closed s" using inv ws by (auto simp: filterInv_def)
  have s': "workers s' = A @ Evaluated f # B" "unspawned s' = unspawned s" "counter s' = counter s"
    "sent s' = (if pass f then sent s @ [f] else sent s)" "closed s' = closed s"
    by (simp_all add: evaluate(1) ws')
  from inv nc show ?thesis
    unfolding filterInv_def s' ws by (simp add: evaluatedFiles_def)
next
  case (finish i f)
  from update_split[OF finish(2), of "Finished f"] finish(3) obtain A B where
    ws: "workers s = A @ Evaluated f # B" and ws': "(workers s)[i := Finished f] = A @ Finished f # B"
    by auto
  have nc: "\<not> closed s" using inv ws by (auto simp: filterInv_def)
  have s': "workers s' = A @ Finished f # B" "unspawned s' = unspawned s" "counter s' = counter s - 1"
    "sent s' = sent s" "closed s' = closed s"
    by (simp_all add: finish(1) ws')
  from inv nc show ?thesis
    unfolding filterInv_def s' ws by (simp add: evaluatedFiles_def)
next
  case close
  from inv close(3) have "length (filter (\<lambda>w. \<not> isFinished w) (workers s)) = 0"
    by (simp add: filterInv_def)
  then have "list_all isFinished (workers s)" by (rule none_unfinished)
  with inv close show ?thesis by (simp add: filterInv_def)
qed

lemma filterReach_inv: "filterReach pass files s \<Longrightarrow> filterInv pass files s"
  by (induction rule: filterReach.induct) (auto intro: filterInv_init filterInv_step)

lemma all_finished_evaluated:
  "list_all isFinished ws \<Longrightarrow> evaluatedFiles ws = map fileOf ws"
proof (induction ws)
  case Nil
  then show ?case by (simp add: evaluatedFiles_def)
next
  case (Cons w ws)
  then show ?case by (cases w) (simp_all add: evaluatedFiles_def)
qed

lemma matches_vacuous:
  "matchesExtensions file [] \<and> matchesExcludePatterns Match file [] \<and>
   matchesRestrictToPatterns Match file [] \<and> matchesLanguage ToLower file (config\<lparr>Languages := []\<rparr>)"
  by (simp add: matchesExtensions_def matchesExcludePatterns_def matchesRestrictToPatterns_def
      matchesLanguage_def)

text \<open>
  The channel does get closed: the schedule that spawns every worker and then lets the
  workers run one after the other ends in a closed state, with the passing files sent in
  the order of the input.
\<close>

lemma filterReach_spawned:
  "k \<le> length files \<Longrightarrow>
   filterReach pass files \<lparr>unspawned = drop k files, workers = map Started (take k files),
                            counter = int k, sent = [], closed = False\<rparr>"
proof (induction k)
  case 0
  have "filterReach pass files (initFilter files)" by (rule filterReach.start)
  then show ?case by (simp add: initFilter_def)
next
  case (Suc k)
  let ?s = "\<lparr>unspawned = drop k files, workers = map Started (take k files),
             counter = int k, sent = [], closed = False\<rparr>"
  let ?s' = "\<lparr>unspawned = drop (Suc k) files, workers = map Started (take (Suc k) files),
             counter = int (Suc k), sent = [], closed = False\<rparr>"
  from Suc have r: "filterReach pass files ?s" and k: "k < length files" by simp_all
  have "unspawned ?s = files ! k # drop (Suc k) files" using k by (simp add: Cons_nth_drop_Suc)
  then have st: "filterStep pass ?s (?s\<lparr>unspawned := drop (Suc k) files,
      workers := workers ?s @ [Started (files ! k)], counter := counter ?s + 1\<rparr>)"
    by (rule filterStep.spawn)
  have eq: "?s\<lparr>unspawned := drop (Suc k) files,
      workers := workers ?s @ [Started (files ! k)], counter := counter ?s + 1\<rparr> = ?s'"
    using k by (simp add: take_Suc_conv_app_nth)
  from st have "filterStep pass ?s ?s'" unfolding eq .
  with r show ?case by (rule filterReach.step)
qed

lemma filterReach_finished:
  "k \<le> length files \<Longrightarrow>
   filterReach pass files \<lparr>unspawned = [],
      workers = map Finished (take k files) @ map Started (drop k files),
      counter = int (length files - k), sent = filter pass (take k files), closed = False\<rparr>"
proof (induction k)
  case 0
  from filterReach_spawned[of "length files" files pass] show ?case by simp
next
  case (Suc k)
  let ?A = "map Finished (take k files)" and ?B = "map Started (drop (Suc k) files)"
  let ?f = "files ! k"
  let ?s = "\<lparr>unspawned = [], workers = ?A @ Started ?f # ?B,
      counter = int (length files - k), sent = filter pass (take k files), closed = False\<rparr>"
  let ?s1 = "\<lparr>unspawned = [], workers = ?A @ Evaluated ?f # ?B,
      counter = int (length files - k), sent = filter pass (take (Suc k) files), closed = False\<rparr>"
  let ?s2 = "\<lparr>unspawned = [], workers = ?A @ Finished ?f # ?B,
      counter = int (length files - Suc k), sent = filter pass (take (Suc k) files), closed = False\<rparr>"
  from Suc.prems have k: "k < length files" by simp
  have lenA: "length ?A = k" using k by simp
  from k have "k \<le> length files" by simp
  then have r0: "filterReach pass files \<lparr>unspawned = [],
      workers = map Finished (take k files) @ map Started (drop k files),
      counter = int (length files - k), sent = filter pass (take k files), closed = False\<rparr>"
    by (rule Suc.IH)
  have "drop k files = ?f # drop (Suc k) files" using k by (simp add: Cons_nth_drop_Suc)
  then have eq0: "map Started (drop k files) = Started ?f # ?B" by simp
  have r: "filterReach pass files ?s" by (rule r0[unfolded eq0])
  have i: "k < length (workers ?s)" using k by simp
  have w: "workers ?s ! k = Started ?f" using lenA by (simp add: nth_append)
  have u: "(?A @ Started ?f # ?B)[k := Evaluated ?f] = ?A @ Evaluated ?f # ?B"
    using lenA by (metis list_update_length)
  have st: "filterStep pass ?s (?s\<lparr>workers := (workers ?s)[k := Evaluated ?f],
      sent := (if pass ?f then sent ?s @ [?f] else sent ?s)\<rparr>)"
    using i w by (rule filterStep.evaluate)
  have eq: "?s\<lparr>workers := (workers ?s)[k := Evaluated ?f],
      sent := (if pass ?f then sent ?s @ [?f] else sent ?s)\<rparr> = ?s1"
    using k by (simp add: u take_Suc_conv_app_nth)
  from st have "filterStep pass ?s ?s1" unfolding eq .
  with r have r1: "filterReach pass files ?s1" by (rule filterReach.step)
  have i1: "k < length (workers ?s1)" using k by simp
  have w1: "workers ?s1 ! k = Evaluated ?f" using lenA by (simp add: nth_append)
  have u1: "(?A @ Evaluated ?f # ?B)[k := Finished ?f] = ?A @ Finished ?f # ?B"
    using lenA by (metis list_update_length)
  have st1: "filterStep pass ?s1 (?s1\<lparr>workers := (workers ?s1)[k := Finished ?f],
      counter := counter ?s1 - 1\<rparr>)"
    using i1 w1 by (rule filterStep.finish)
  have c: "int (length files - k) - 1 = int (length files - Suc k)" using k by simp
  have eq1: "?s1\<lparr>workers := (workers ?s1)[k := Finished ?f], counter := counter ?s1 - 1\<rparr> = ?s2"
    by (simp add: u1 c)
  from st1 have "filterStep pass ?s1 ?s2" unfolding eq1 .
  with r1 have r2: "filterReach pass files ?s2" by (rule filterReach.step)
  have "take (Suc k) files = take k files @ [?f]" using k by (rule take_Suc_conv_app_nth)
  then have "map Finished (take (Suc k) files) @ map Started (drop (Suc k) files) = ?A @ Finished ?f # ?B"
    by simp
  then show ?case using r2 by (simp only:)
qed

lemma filterReach_closes:
  "\<exists>s. filterReach pass files s \<and> closed s \<and> sent s = filter pass files"
proof -
  let ?s = "\<lparr>unspawned = [], workers = map Finished files, counter = 0,
             sent = filter pass files, closed = False\<rparr>"
  from filterReach_finished[of "length files" files pass] have r: "filterReach pass files ?s" by simp
  have "filterStep pass ?s (?s\<lparr>closed := True\<rparr>)" by (rule filterStep.close) simp_all
  with r have "filterReach pass files (?s\<lparr>closed := True\<rparr>)" by (rule filterReach.step)
  then show ?thesis by (intro exI[of _ "?s\<lparr>closed := True\<rparr>"]) simp
qed

text \<open>
  C4. In every state that \<open>parallelFilter\<close> can reach with the channel closed, every input
  file has been spawned, evaluated and finished, and the values sent are, as a multiset,
  the input files that pass the filter: each input file is emitted once if it passes and
  not at all otherwise. A file passes exactly when the four predicates hold, and each
  predicate holds when its list is empty.
\<close>

theorem parallelFilter_closed_after_all:
  assumes reach: "filterReach (passesFilter ToLower Match config) files s"
    and cl: "closed s"
  shows "mset (sent s) = filter_mset (passesFilter ToLower Match config) (mset files) \<and>
         count (mset (sent s)) path =
           (if passesFilter ToLower Match config path then count (mset files) path else 0) \<and>
         unspawned s = [] \<and> map fileOf (workers s) = files \<and> list_all isFinished (workers s) \<and>
         (passesFilter ToLower Match config path \<longleftrightarrow>
            matchesExtensions path (Extensions config) \<and>
            matchesExcludePatterns Match path (Exclude config) \<and>
            matchesRestrictToPatterns Match path (RestrictTo config) \<and>
            matchesLanguage ToLower path config) \<and>
         matchesExtensions path [] \<and> matchesExcludePatterns Match path [] \<and>
         matchesRestrictToPatterns Match path [] \<and>
         matchesLanguage ToLower path (config\<lparr>Languages := []\<rparr>)"
proof -
  let ?pass = "passesFilter ToLower Match config"
  from reach have inv: "filterInv ?pass files s" by (rule filterReach_inv)
  with cl have u: "unspawned s = []" and fin: "list_all isFinished (workers s)"
    by (simp_all add: filterInv_def)
  from inv u have fs: "map fileOf (workers s) = files" by (simp add: filterInv_def)
  from inv have "mset (sent s) = filter_mset ?pass (mset (evaluatedFiles (workers s)))"
    by (simp add: filterInv_def)
  with all_finished_evaluated[OF fin] fs
  have m: "mset (sent s) = filter_mset ?pass (mset files)" by simp
  then have c: "count (mset (sent s)) path = (if ?pass path then count (mset files) path else 0)"
    by simp
  have d: "?pass path \<longleftrightarrow>
            matchesExtensions path (Extensions config) \<and>
            matchesExcludePatterns Match path (Exclude config) \<and>
            matchesRestrictToPatterns Match path (RestrictTo config) \<and>
            matchesLanguage ToLower path config"
    by (simp add: passesFilter_def)
  from m c u fs fin d matches_vacuous[of path Match ToLower config] show ?thesis
    by (simp only: simp_thms)
qed

text \<open>
  A run on \<open>a.go\<close> and \<open>b.md\<close> with the extension list \<open>.go\<close>: both workers are spawned
  and evaluate before either finishes; the channel is closed with \<open>a.go\<close> sent.
\<close>

theorem parallelFilter_closed_after_all_witness:
  "filterReach (passesFilter exToLower exMatch exFilterConfig) [''a.go'', ''b.md''] exFilterFinal \<and>
   closed exFilterFinal \<and>
   mset (sent exFilterFinal) =
     filter_mset (passesFilter exToLower exMatch exFilterConfig) (mset [''a.go'', ''b.md'']) \<and>
   sent exFilterFinal = [''a.go''] \<and>
   passesFilter exToLower exMatch exFilterConfig ''a.go'' = True \<and>
   passesFilter exToLower exMatch exFilterConfig ''b.md'' = False"
proof -
  let ?pass = "passesFilter exToLower exMatch exFilterConfig"
  let ?s1 = "\<lparr>unspawned = [''b.md''], workers = [Started ''a.go''], counter = 1, sent = [], closed = False\<rparr>"
  let ?s2 = "\<lparr>unspawned = [], workers = [Started ''a.go'', Started ''b.md''], counter = 2, sent = [],
              closed = False\<rparr>"
  let ?s3 = "\<lparr>unspawned = [], workers = [Evaluated ''a.go'', Started ''b.md''], counter = 2,
              sent = [''a.go''], closed = False\<rparr>"
  let ?s4 = "\<lparr>unspawned = [], workers = [Evaluated ''a.go'', Evaluated ''b.md''], counter = 2,
              sent = [''a.go''], closed = False\<rparr>"
  let ?s5 = "\<lparr>unspawned = [], workers = [Evaluated ''a.go'', Finished ''b.md''], counter = 1,
              sent = [''a.go''], closed = False\<rparr>"
  let ?s6 = "\<lparr>unspawned = [], workers = [Finished ''a.go'', Finished ''b.md''], counter = 0,
              sent = [''a.go''], closed = False\<rparr>"
  have pa: "?pass ''a.go'' = True" by code_simp
  have pb: "?pass ''b.md'' = False" by code_simp
  have r0: "filterReach ?pass [''a.go'', ''b.md''] (initFilter [''a.go'', ''b.md''])"
    by (rule filterReach.start)
  have "filterStep ?pass (initFilter [''a.go'', ''b.md'']) ?s1"
    using filterStep.spawn[of "initFilter [''a.go'', ''b.md'']" "''a.go''" "[''b.md'']" ?pass]
    by (simp add: initFilter_def)
  with r0 have r1: "filterReach ?pass [''a.go'', ''b.md''] ?s1" by (rule filterReach.step)
  have "filterStep ?pass ?s1 ?s2"
    using filterStep.spawn[of ?s1 "''b.md''" "[]" ?pass] by simp
  with r1 have r2: "filterReach ?pass [''a.go'', ''b.md''] ?s2" by (rule filterReach.step)
  have "filterStep ?pass ?s2 ?s3"
    using filterStep.evaluate[of 0 ?s2 "''a.go''" ?pass] pa by simp
  with r2 have r3: "filterReach ?pass [''a.go'', ''b.md''] ?s3" by (rule filterReach.step)
  have "filterStep ?pass ?s3 ?s4"
    using filterStep.evaluate[of 1 ?s3 "''b.md''" ?pass] pb by simp
  with r3 have r4: "filterReach ?pass [''a.go'', ''b.md''] ?s4" by (rule filterReach.step)
  have "filterStep ?pass ?s4 ?s5"
    using filterStep.finish[of 1 ?s4 "''b.md''" ?pass] by simp
  with r4 have r5: "filterReach ?pass [''a.go'', ''b.md''] ?s5" by (rule filterReach.step)
  have "filterStep ?pass ?s5 ?s6"
    using filterStep.finish[of 0 ?s5 "''a.go''" ?pass] by simp
  with r5 have r6: "filterReach ?pass [''a.go'', ''b.md''] ?s6" by (rule filterReach.step)
  have "filterStep ?pass ?s6 exFilterFinal"
    using filterStep.close[of ?s6 ?pass] by (simp add: exFilterFinal_def)
  with r6 have r7: "filterReach ?pass [''a.go'', ''b.md''] exFilterFinal" by (rule filterReach.step)
  have c: "closed exFilterFinal" by (simp add: exFilterFinal_def)
  have s: "sent exFilterFinal = [''a.go'']" by (simp add: exFilterFinal_def)
  from parallelFilter_closed_after_all[OF r7 c]
  have "mset (sent exFilterFinal) = filter_mset ?pass (mset [''a.go'', ''b.md''])" by (rule conjunct1)
  with r7 c s pa pb show ?thesis by (simp only: simp_thms)
qed

section \<open>The language predicate\<close>

lemma HasSuffix_suffix: "HasSuffix s suf \<longleftrightarrow> suffix suf s"
proof
  assume "HasSuffix s suf"
  then have "s = take (length s - length suf) s @ suf"
    by (metis HasSuffix_def append_take_drop_id)
  then show "suffix suf s" by (rule suffixI)
next
  assume "suffix suf s"
  then obtain zs where "s = zs @ suf" by (rule suffixE)
  then show "HasSuffix s suf" by (simp add: HasSuffix_def)
qed

lemma matchesLanguage_table:
  "matchesLanguage ToLower path config \<longleftrightarrow>
     Languages config = [] \<or>
     (\<exists>lang \<in> set (Languages config). \<exists>exts. ExtensionsMap config (ToLower lang) = Some exts \<and>
        (\<exists>ext \<in> set exts. suffix ext (Ext path)))"
proof -
  have inner: "\<And>lang. (case ExtensionsMap config (ToLower lang) of None \<Rightarrow> False
           | Some existedLang \<Rightarrow> list_ex (\<lambda>allowedExtension. HasSuffix (Ext path) allowedExtension) existedLang)
        \<longleftrightarrow> (\<exists>exts. ExtensionsMap config (ToLower lang) = Some exts \<and>
              (\<exists>ext \<in> set exts. suffix ext (Ext path)))"
  proof -
    fix lang
    show "(case ExtensionsMap config (ToLower lang) of None \<Rightarrow> False
           | Some existedLang \<Rightarrow> list_ex (\<lambda>allowedExtension. HasSuffix (Ext path) allowedExtension) existedLang)
        \<longleftrightarrow> (\<exists>exts. ExtensionsMap config (ToLower lang) = Some exts \<and>
              (\<exists>ext \<in> set exts. suffix ext (Ext path)))"
      by (cases "ExtensionsMap config (ToLower lang)") (simp_all add: list_ex_iff HasSuffix_suffix)
  qed
  show ?thesis
    by (cases "Languages config = []") (simp_all add: matchesLanguage_def list_ex_iff inner)
qed

lemma fold_appendExtension:
  "fold (appendExtension ToLower lang) exts m =
     (if exts = [] then m
      else m(ToLower (langName lang) \<mapsto>
               (case m (ToLower (langName lang)) of None \<Rightarrow> [] | Some xs \<Rightarrow> xs) @ exts))"
proof (induction exts arbitrary: m)
  case Nil
  then show ?case by simp
next
  case (Cons e es)
  let ?k = "ToLower (langName lang)"
  define m1 where "m1 = appendExtension ToLower lang e m"
  have m1: "m1 = m(?k \<mapsto> (case m ?k of None \<Rightarrow> [] | Some xs \<Rightarrow> xs) @ [e])"
    by (simp add: m1_def appendExtension_def Let_def)
  have "fold (appendExtension ToLower lang) (e # es) m = fold (appendExtension ToLower lang) es m1"
    by (simp add: m1_def)
  also have "\<dots> = (if es = [] then m1
      else m1(?k \<mapsto> (case m1 ?k of None \<Rightarrow> [] | Some xs \<Rightarrow> xs) @ es))"
    by (rule Cons.IH)
  also have "\<dots> = m(?k \<mapsto> (case m ?k of None \<Rightarrow> [] | Some xs \<Rightarrow> xs) @ e # es)"
    by (simp add: m1)
  finally show ?case by simp
qed

lemma extsFor_Cons:
  "extsFor ToLower (l # ls) k =
     (if ToLower (langName l) = k then langExtensions l @ extsFor ToLower ls k
      else extsFor ToLower ls k)"
  by (simp add: extsFor_def)

lemma fold_languages:
  "fold (\<lambda>lang m. fold (appendExtension ToLower lang) (langExtensions lang) m) languages m k =
     (if extsFor ToLower languages k = [] then m k
      else Some ((case m k of None \<Rightarrow> [] | Some xs \<Rightarrow> xs) @ extsFor ToLower languages k))"
proof (induction languages arbitrary: m)
  case Nil
  then show ?case by (simp add: extsFor_def)
next
  case (Cons l ls)
  let ?f = "\<lambda>lang m. fold (appendExtension ToLower lang) (langExtensions lang) m"
  define m1 where "m1 = fold (appendExtension ToLower l) (langExtensions l) m"
  have step: "fold ?f (l # ls) m k = fold ?f ls m1 k" by (simp add: m1_def)
  have ih: "fold ?f ls m1 k =
     (if extsFor ToLower ls k = [] then m1 k
      else Some ((case m1 k of None \<Rightarrow> [] | Some xs \<Rightarrow> xs) @ extsFor ToLower ls k))"
    by (rule Cons.IH)
  have m1: "m1 k = (if ToLower (langName l) = k \<and> langExtensions l \<noteq> []
                    then Some ((case m k of None \<Rightarrow> [] | Some xs \<Rightarrow> xs) @ langExtensions l)
                    else m k)"
    by (simp add: m1_def fold_appendExtension)
  show ?case unfolding step ih m1 extsFor_Cons
    by (cases "ToLower (langName l) = k"; cases "langExtensions l = []"; cases "m k") simp_all
qed

lemma LoadExtensionsMap_lookup:
  "LoadExtensionsMap ToLower languages k =
     (if extsFor ToLower languages k = [] then None else Some (extsFor ToLower languages k))"
  by (simp add: LoadExtensionsMap_def fold_languages)

lemma set_extsFor:
  "set (extsFor ToLower languages k) =
     (\<Union>l \<in> set languages. if ToLower (langName l) = k then set (langExtensions l) else {})"
  by (auto simp: extsFor_def split: if_splits)

lemma extFrom_suffix: "suffix (extFrom path n) path"
  by (induction n) (auto simp: suffix_drop)

lemma Ext_suffix: "suffix (Ext path) path"
  by (simp add: Ext_def extFrom_suffix)

lemma extFrom_scanExt:
  "n \<le> length path \<Longrightarrow> extFrom path n = scanExt (rev (take n path)) (drop n path)"
proof (induction n)
  case 0
  then show ?case by simp
next
  case (Suc i)
  then have i: "i < length path" by simp
  have t: "rev (take (Suc i) path) = path ! i # rev (take i path)"
    using i by (simp add: take_Suc_conv_app_nth)
  have d: "path ! i # drop (Suc i) path = drop i path" using i by (rule Cons_nth_drop_Suc)
  have ih: "extFrom path i = scanExt (rev (take i path)) (drop i path)" using Suc.IH i by simp
  show ?case unfolding t using d by (auto simp: ih)
qed

lemma scanExt_char:
  "scanExt r suf =
     (if CHR ''.'' \<in> set (takeWhile (\<lambda>c. c \<noteq> CHR ''/'') r)
      then CHR ''.'' # rev (takeWhile (\<lambda>c. c \<noteq> CHR ''.'') r) @ suf else [])"
  by (induction r arbitrary: suf) auto

lemma Ext_char:
  "Ext path = (if CHR ''.'' \<in> set (baseName path) then CHR ''.'' # afterLastDot path else [])"
  using extFrom_scanExt[of "length path" path]
  by (simp add: Ext_def scanExt_char baseName_def afterLastDot_def)

lemma matchesLanguage_examples:
  "matchesLanguage exToLower ''cmd/main.go'' (exLangConfig [''GO'']) = True \<and>
   matchesLanguage exToLower ''cmd/main.go'' (exLangConfig [''c'', ''c++'']) = False \<and>
   matchesLanguage exToLower ''lib/util.h'' (exLangConfig [''c'', ''c++'']) = True \<and>
   matchesLanguage exToLower ''v1.2/README'' (exLangConfig [''go'']) = False \<and>
   Ext ''v1.2/README'' = [] \<and> Ext ''x.tar.gz'' = ''.gz''"
  by code_simp

lemma matchesLanguage_loaded:
  "matchesLanguage ToLower path (config\<lparr>ExtensionsMap := LoadExtensionsMap ToLower languages\<rparr>) \<longleftrightarrow>
      Languages config = [] \<or>
      (\<exists>lang \<in> set (Languages config). \<exists>l \<in> set languages.
         ToLower (langName l) = ToLower lang \<and>
         (\<exists>ext \<in> set (langExtensions l). suffix ext (Ext path)))"
proof -
  let ?c = "config\<lparr>ExtensionsMap := LoadExtensionsMap ToLower languages\<rparr>"
  have "\<And>lang. (\<exists>exts. LoadExtensionsMap ToLower languages (ToLower lang) = Some exts \<and>
            (\<exists>ext \<in> set exts. suffix ext (Ext path))) \<longleftrightarrow>
        (\<exists>l \<in> set languages. ToLower (langName l) = ToLower lang \<and>
            (\<exists>ext \<in> set (langExtensions l). suffix ext (Ext path)))"
  proof -
    fix lang
    have "(\<exists>exts. LoadExtensionsMap ToLower languages (ToLower lang) = Some exts \<and>
            (\<exists>ext \<in> set exts. suffix ext (Ext path))) \<longleftrightarrow>
          (\<exists>ext \<in> set (extsFor ToLower languages (ToLower lang)). suffix ext (Ext path))"
      by (auto simp: LoadExtensionsMap_lookup split: if_splits)
    also have "\<dots> \<longleftrightarrow> (\<exists>l \<in> set languages. ToLower (langName l) = ToLower lang \<and>
            (\<exists>ext \<in> set (langExtensions l). suffix ext (Ext path)))"
      unfolding set_extsFor by (auto split: if_splits)
    finally show "(\<exists>exts. LoadExtensionsMap ToLower languages (ToLower lang) = Some exts \<and>
            (\<exists>ext \<in> set exts. suffix ext (Ext path))) \<longleftrightarrow>
        (\<exists>l \<in> set languages. ToLower (langName l) = ToLower lang \<and>
            (\<exists>ext \<in> set (langExtensions l). suffix ext (Ext path)))" .
  qed
  then show ?thesis
    unfolding matchesLanguage_table[of ToLower path ?c] by simp
qed

text \<open>
  C9, as the code has it. The language predicate passes a path if and only if the language
  list is empty, or some extension registered for some requested language is a suffix of
  the path's extension, the extension being what \<open>filepath.Ext\<close> returns: the suffix of the
  final path element that starts at its last dot, the dot included. With the table that
  \<open>LoadExtensionsMap\<close> builds, a requested language selects the entries whose name has
  the same lower-case form.
\<close>

theorem matchesLanguage_iff:
  "(matchesLanguage ToLower path config \<longleftrightarrow>
      Languages config = [] \<or>
      (\<exists>lang \<in> set (Languages config). \<exists>exts. ExtensionsMap config (ToLower lang) = Some exts \<and>
         (\<exists>ext \<in> set exts. suffix ext (Ext path)))) \<and>
   (matchesLanguage ToLower path (config\<lparr>ExtensionsMap := LoadExtensionsMap ToLower languages\<rparr>) \<longleftrightarrow>
      Languages config = [] \<or>
      (\<exists>lang \<in> set (Languages config). \<exists>l \<in> set languages.
         ToLower (langName l) = ToLower lang \<and>
         (\<exists>ext \<in> set (langExtensions l). suffix ext (Ext path)))) \<and>
   Ext path = (if CHR ''.'' \<in> set (baseName path) then CHR ''.'' # afterLastDot path else [])"
  by (intro conjI matchesLanguage_table matchesLanguage_loaded Ext_char)

text \<open>
  C9 as stated fails: \<open>main.c\<close> and the extension \<open>.cc\<close> of C++ have the common suffix
  \<open>c\<close>, and the code rejects \<open>main.c\<close> for the language C++, since \<open>.cc\<close> is not a suffix
  of \<open>.c\<close>.
\<close>

theorem matchesLanguage_not_common_suffix:
  "matchesLanguage exToLower ''main.c'' (exLangConfig [''C++'']) = False \<and>
   spec_matchesLanguage exToLower ''main.c'' (exLangConfig [''C++'']) = True \<and>
   Ext ''main.c'' = ''.c'' \<and> spec_extension ''main.c'' = ''c'' \<and>
   LoadExtensionsMap exToLower exLanguages ''c++'' = Some [''.cpp'', ''.cc'']"
  by code_simp

section \<open>The aggregate of well-formed per-file maps\<close>

text \<open>
  When every per-file map is well formed (no worker panicked and no fallback query
  failed), the merge does not panic and the final entry of an identity is determined by
  the results of the files: the lines and the files are summed, the commit sets united
  and counted. The final map and the ranked sequence are then the same for every order
  in which the results are merged.
\<close>

lemma fieldOf_update:
  "fieldOf g (AList.update k st acc) a = (if k = a then g st else fieldOf g acc a)"
  by (simp add: fieldOf_def update_conv')

lemma mergeActor_field:
  assumes m: "mergeActor (k, info) acc = Inr acc'"
    and g: "\<And>e i cs. g (e\<lparr>Lines := Lines e + Lines i, Files := Files e + Files i,
                              commitsSet := cs\<rparr>) = g e + g i"
  shows "fieldOf g acc' a = fieldOf g acc a + (if k = a then g info else 0)"
proof (cases "map_of acc k")
  case None
  then have "fieldOf g acc k = 0" by (simp add: fieldOf_def)
  moreover from None m have "acc' = AList.update k info acc" by (simp add: mergeActor_None)
  ultimately show ?thesis by (cases "k = a") (simp_all add: fieldOf_update)
next
  case (Some existing)
  then have old: "fieldOf g acc k = g existing" by (simp add: fieldOf_def)
  from m obtain cs where
    acc': "acc' = AList.update k (existing\<lparr>Lines := Lines existing + Lines info,
          Files := Files existing + Files info, commitsSet := cs\<rparr>) acc"
    unfolding mergeActor_Some[OF Some]
    by (cases "rangeInsert (commitsSet existing) (commitsSet info)") auto
  show ?thesis using old by (cases "k = a") (simp_all add: acc' fieldOf_update g)
qed

lemma mergeStats_field:
  assumes g: "\<And>e i cs. g (e\<lparr>Lines := Lines e + Lines i, Files := Files e + Files i,
                              commitsSet := cs\<rparr>) = g e + g i"
  shows "mergeStats es acc = Inr acc' \<Longrightarrow> fieldOf g acc' a = fieldOf g acc a + entrySum g es a"
proof (induction es arbitrary: acc)
  case Nil
  then show ?case by (simp add: entrySum_def)
next
  case (Cons e es)
  obtain k info where e: "e = (k, info)" by (cases e)
  from Cons.prems obtain acc1 where 1: "mergeActor e acc = Inr acc1" and 2: "mergeStats es acc1 = Inr acc'"
    by (auto split: sum.splits)
  show ?case using Cons.IH[OF 2] mergeActor_field[OF 1[unfolded e], of g a, OF g]
    by (simp add: entrySum_def e)
qed

lemma mergeAll_field:
  assumes g: "\<And>e i cs. g (e\<lparr>Lines := Lines e + Lines i, Files := Files e + Files i,
                              commitsSet := cs\<rparr>) = g e + g i"
  shows "mergeAll rs acc = Inr acc' \<Longrightarrow>
         fieldOf g acc' a = fieldOf g acc a + sum_list (map (\<lambda>r. entrySum g r a) rs)"
proof (induction rs arbitrary: acc)
  case Nil
  then show ?case by simp
next
  case (Cons r rs)
  from Cons.prems obtain acc1 where 1: "mergeStats r acc = Inr acc1" and 2: "mergeAll rs acc1 = Inr acc'"
    by (auto split: sum.splits)
  show ?case using Cons.IH[OF 2] mergeStats_field[of g, OF g 1, of a] by simp
qed

lemma entrySum_distinct:
  "distinct (map fst m) \<Longrightarrow> entrySum g m a = fieldOf g m a"
proof (induction m)
  case Nil
  then show ?case by (simp add: entrySum_def fieldOf_def)
next
  case (Cons e m)
  obtain k st where e: "e = (k, st)" by (cases e)
  from Cons.prems have d: "distinct (map fst m)" and k: "k \<notin> fst ` set m" by (simp_all add: e)
  from k have none: "map_of m k = None" by (simp add: map_of_eq_None_iff)
  have ih: "entrySum g m a = fieldOf g m a" using Cons.IH[OF d] .
  show ?case
  proof (cases "k = a")
    case True
    with none have "fieldOf g m a = 0" by (simp add: fieldOf_def)
    with ih True show ?thesis by (simp add: entrySum_def fieldOf_def e)
  next
    case False
    with ih show ?thesis by (simp add: entrySum_def fieldOf_def e)
  qed
qed

lemma mergeAll_dom:
  "mergeAll rs acc = Inr acc' \<Longrightarrow> dom (map_of acc') = dom (map_of acc) \<union> (\<Union>r \<in> set rs. fst ` set r)"
proof (induction rs arbitrary: acc)
  case Nil
  then show ?case by simp
next
  case (Cons r rs)
  from Cons.prems obtain acc1 where 1: "mergeStats r acc = Inr acc1" and 2: "mergeAll rs acc1 = Inr acc'"
    by (auto split: sum.splits)
  show ?case using Cons.IH[OF 2] mergeStats_dom[OF 1] by auto
qed

lemma accOK_map_of:
  "accOK acc \<Longrightarrow> map_of acc a = Some st \<Longrightarrow> Name st = a \<and> commitsSet st \<noteq> None \<and> Commits st = 0"
  by (auto simp: accOK_def list_all_iff dest!: map_of_SomeD)

lemma accOK_update:
  assumes "accOK acc" and "Name st = k" and "commitsSet st \<noteq> None" and "Commits st = 0"
  shows "accOK (AList.update k st acc)"
proof -
  have "\<And>e. e \<in> set (AList.update k st acc) \<Longrightarrow>
          (case e of (a, s) \<Rightarrow> Name s = a \<and> commitsSet s \<noteq> None \<and> Commits s = 0)"
  proof -
    fix e assume "e \<in> set (AList.update k st acc)"
    then have "e = (k, st) \<or> e \<in> set acc" by (rule set_update_cases)
    then show "case e of (a, s) \<Rightarrow> Name s = a \<and> commitsSet s \<noteq> None \<and> Commits s = 0"
      using assms by (auto simp: accOK_def list_all_iff)
  qed
  then show ?thesis using assms(1) by (simp add: accOK_def list_all_iff distinct_update)
qed

lemma rangeInsert_Some:
  "rangeInsert (Some es) y = Inr (Some (es \<union> (case y of None \<Rightarrow> {} | Some cs \<Rightarrow> cs)))"
  by (cases y) (auto simp: rangeInsert_def)

lemma mergeActor_ok:
  assumes ok: "accOK acc" and p: "partialStat k info"
  shows "\<exists>acc'. mergeActor (k, info) acc = Inr acc' \<and> accOK acc'"
proof (cases "map_of acc k")
  case None
  then have "mergeActor (k, info) acc = Inr (AList.update k info acc)" by (rule mergeActor_None)
  moreover have "accOK (AList.update k info acc)"
    using ok p by (intro accOK_update) (simp_all add: partialStat_def)
  ultimately show ?thesis by simp
next
  case (Some existing)
  from accOK_map_of[OF ok Some] obtain es where
    es: "commitsSet existing = Some es" and n: "Name existing = k" and c: "Commits existing = 0"
    by auto
  let ?st = "existing\<lparr>Lines := Lines existing + Lines info, Files := Files existing + Files info,
      commitsSet := Some (es \<union> (case commitsSet info of None \<Rightarrow> {} | Some cs \<Rightarrow> cs))\<rparr>"
  have "mergeActor (k, info) acc = Inr (AList.update k ?st acc)"
    unfolding mergeActor_Some[OF Some] es rangeInsert_Some by simp
  moreover have "accOK (AList.update k ?st acc)"
    using ok n c by (intro accOK_update) simp_all
  ultimately show ?thesis by simp
qed

lemma mergeStats_ok:
  "accOK acc \<Longrightarrow> list_all (\<lambda>(a, st). partialStat a st) es \<Longrightarrow>
   \<exists>acc'. mergeStats es acc = Inr acc' \<and> accOK acc'"
proof (induction es arbitrary: acc)
  case Nil
  then show ?case by simp
next
  case (Cons e es)
  obtain k info where e: "e = (k, info)" by (cases e)
  from Cons.prems(2) have p: "partialStat k info" and rest: "list_all (\<lambda>(a, st). partialStat a st) es"
    by (simp_all add: e)
  from mergeActor_ok[OF Cons.prems(1) p] obtain acc1 where
    1: "mergeActor (k, info) acc = Inr acc1" and ok1: "accOK acc1" by blast
  from Cons.IH[OF ok1 rest] 1 show ?case by (simp add: e)
qed

lemma mergeAll_ok:
  "accOK acc \<Longrightarrow> list_all wfStats rs \<Longrightarrow> \<exists>acc'. mergeAll rs acc = Inr acc' \<and> accOK acc'"
proof (induction rs arbitrary: acc)
  case Nil
  then show ?case by simp
next
  case (Cons r rs)
  from Cons.prems(2) have "wfStats r" and rest: "list_all wfStats rs" by simp_all
  then have "list_all (\<lambda>(a, st). partialStat a st) r" by (simp add: wfStats_def)
  from mergeStats_ok[OF Cons.prems(1) this] obtain acc1 where
    1: "mergeStats r acc = Inr acc1" and ok1: "accOK acc1" by blast
  from Cons.IH[OF ok1 rest] 1 show ?case by simp
qed

lemma collect_map_Inr: "collect (map Inr xs) = Inr xs"
  by (induction xs) simp_all

lemma lines_step:
  "Lines (e\<lparr>Lines := Lines e + Lines i, Files := Files e + Files i, commitsSet := cs\<rparr>) = Lines e + Lines i"
  by simp

lemma files_step:
  "Files (e\<lparr>Lines := Lines e + Lines i, Files := Files e + Files i, commitsSet := cs\<rparr>) = Files e + Files i"
  by simp

lemma aggregateStats_wf:
  assumes wf: "\<And>f. f \<in> set files \<Longrightarrow> \<exists>stats. calc f = Inr stats \<and> wfStats stats"
  shows "\<exists>final. aggregateStats calc files = Inr final \<and> distinct (map fst final) \<and>
           (\<forall>a. map_of final a =
              (if \<exists>f \<in> set files. fileHas (calc f) a then Some (expectedStat calc files a) else None))"
proof -
  define results where "results = map (\<lambda>f. case calc f of Inr stats \<Rightarrow> stats | Inl p \<Rightarrow> []) files"
  have each: "\<And>f. f \<in> set files \<Longrightarrow> calc f = Inr (case calc f of Inr stats \<Rightarrow> stats | Inl p \<Rightarrow> [])
       \<and> wfStats (case calc f of Inr stats \<Rightarrow> stats | Inl p \<Rightarrow> [])"
  proof -
    fix f assume "f \<in> set files"
    from wf[OF this] obtain stats where "calc f = Inr stats" "wfStats stats" by blast
    then show "calc f = Inr (case calc f of Inr stats \<Rightarrow> stats | Inl p \<Rightarrow> [])
       \<and> wfStats (case calc f of Inr stats \<Rightarrow> stats | Inl p \<Rightarrow> [])" by simp
  qed
  have res: "map calc files = map Inr results"
    using each by (simp add: results_def)
  have wfr: "list_all wfStats results" using each by (simp add: results_def list_all_iff)
  have "accOK []" by (simp add: accOK_def)
  from mergeAll_ok[OF this wfr] obtain acc where mer: "mergeAll results [] = Inr acc" and ok: "accOK acc"
    by blast
  have agg: "aggregateStats calc files = Inr (finalizeAll acc)"
    by (simp add: aggregateStats_def res collect_map_Inr mer)
  have dist: "distinct (map fst (finalizeAll acc))"
  proof -
    have "map fst (finalizeAll acc) = map fst acc" by (simp add: finalizeAll_def case_prod_beta)
    with ok show ?thesis by (simp add: accOK_def)
  qed
  have dr: "\<And>r. r \<in> set results \<Longrightarrow> distinct (map fst r)"
    using wfr by (simp add: list_all_iff wfStats_def)
  have conv: "\<And>h. map (\<lambda>r. h r) results = map (\<lambda>f. h (case calc f of Inr stats \<Rightarrow> stats | Inl p \<Rightarrow> [])) files"
    by (simp add: results_def)
  have field: "\<And>g a. (\<And>e i cs. g (e\<lparr>Lines := Lines e + Lines i, Files := Files e + Files i,
        commitsSet := cs\<rparr>) = g e + g i) \<Longrightarrow>
      fieldOf g acc a = sum_list (map (\<lambda>f. fileField g (calc f) a) files)"
  proof -
    fix g :: "ActorStats \<Rightarrow> goint" and a
    assume g: "\<And>e i cs. g (e\<lparr>Lines := Lines e + Lines i, Files := Files e + Files i,
        commitsSet := cs\<rparr>) = g e + g i"
    have "fieldOf g acc a = sum_list (map (\<lambda>r. entrySum g r a) results)"
      using mergeAll_field[of g, OF g mer, of a] by (simp add: fieldOf_def)
    also have "\<dots> = sum_list (map (\<lambda>r. fieldOf g r a) results)"
      using dr by (intro arg_cong[where f = sum_list] map_cong refl entrySum_distinct)
    also have "\<dots> = sum_list (map (\<lambda>f. fileField g (calc f) a) files)"
      unfolding results_def map_map o_def
      using each by (intro arg_cong[where f = sum_list] map_cong refl)
        (auto simp: fileField_def fieldOf_def split: sum.splits)
    finally show "fieldOf g acc a = sum_list (map (\<lambda>f. fileField g (calc f) a) files)" .
  qed
  have commits: "\<And>a. commitIDs acc a = (\<Union>f \<in> set files. fileCommits (calc f) a)"
  proof -
    fix a
    have "commitIDs acc a = (\<Union>r \<in> set results. entryCommits r a)"
      using mergeAll_commits[OF mer, of a] by (simp add: commitIDs_def)
    also have "\<dots> = (\<Union>r \<in> set results. commitIDs r a)"
      using dr by (simp add: entryCommits_distinct)
    also have "\<dots> = (\<Union>x \<in> set (map calc files). fileCommits x a)"
      unfolding res by (simp add: fileCommits_def)
    finally show "commitIDs acc a = (\<Union>f \<in> set files. fileCommits (calc f) a)" by simp
  qed
  have domacc: "\<And>a. map_of acc a \<noteq> None \<longleftrightarrow> (\<exists>f \<in> set files. fileHas (calc f) a)"
  proof -
    fix a
    have "map_of acc a \<noteq> None \<longleftrightarrow> a \<in> dom (map_of acc)" by auto
    also have "\<dots> \<longleftrightarrow> (\<exists>r \<in> set results. a \<in> fst ` set r)"
      using mergeAll_dom[OF mer] by simp
    also have "\<dots> \<longleftrightarrow> (\<exists>x \<in> set (map calc files). fileHas x a)"
      unfolding res by (simp add: fileHas_def map_of_eq_None_iff)
    finally show "map_of acc a \<noteq> None \<longleftrightarrow> (\<exists>f \<in> set files. fileHas (calc f) a)" by simp
  qed
  have final: "\<And>a. map_of (finalizeAll acc) a =
      (if \<exists>f \<in> set files. fileHas (calc f) a then Some (expectedStat calc files a) else None)"
  proof -
    fix a
    show "map_of (finalizeAll acc) a =
      (if \<exists>f \<in> set files. fileHas (calc f) a then Some (expectedStat calc files a) else None)"
    proof (cases "map_of acc a")
      case None
      with domacc[of a] show ?thesis by (simp add: map_of_finalizeAll)
    next
      case (Some st)
      from accOK_map_of[OF ok Some] obtain cs where
        n: "Name st = a" and cs: "commitsSet st = Some cs" by auto
      from Some have l: "Lines st = fieldOf Lines acc a" and f: "Files st = fieldOf Files acc a"
        and c: "commitsOf st = commitIDs acc a"
        by (simp_all add: fieldOf_def commitIDs_def)
      from cs c have cs': "cs = commitIDs acc a" by (simp add: commitsOf_def)
      have "finalize st = expectedStat calc files a"
      proof (rule ActorStats.equality)
        show "Name (finalize st) = Name (expectedStat calc files a)"
          by (simp add: finalize_def expectedStat_def n)
        show "Lines (finalize st) = Lines (expectedStat calc files a)"
          by (simp add: finalize_def expectedStat_def l field[of Lines a, OF lines_step])
        show "commitsSet (finalize st) = commitsSet (expectedStat calc files a)"
          by (simp add: finalize_def expectedStat_def cs cs' commits)
        show "Commits (finalize st) = Commits (expectedStat calc files a)"
          by (simp add: finalize_def expectedStat_def c commits)
        show "Files (finalize st) = Files (expectedStat calc files a)"
          by (simp add: finalize_def expectedStat_def f field[of Files a, OF files_step])
      qed simp
      moreover from Some domacc[of a] have "\<exists>f \<in> set files. fileHas (calc f) a" by simp
      ultimately show ?thesis using Some by (simp add: map_of_finalizeAll)
    qed
  qed
  from agg dist final show ?thesis by blast
qed

lemma sum_list_perm:
  fixes g :: "'a \<Rightarrow> goint"
  assumes "mset xs = mset ys"
  shows "sum_list (map g xs) = sum_list (map g ys)"
proof -
  have "mset (map g xs) = mset (map g ys)" using assms by simp
  then have "sum_mset (mset (map g xs)) = sum_mset (mset (map g ys))" by (rule arg_cong)
  then show ?thesis by (simp only: sum_mset_sum_list)
qed

lemma expectedStat_perm:
  assumes "mset files' = mset files"
  shows "expectedStat calc files' a = expectedStat calc files a"
proof -
  have "set files' = set files" using assms by (rule mset_eq_setD)
  then show ?thesis
    by (simp add: expectedStat_def sum_list_perm[OF assms])
qed

lemma map_of_eq_mset:
  assumes "distinct (map fst xs)" and "distinct (map fst ys)" and "map_of xs = map_of ys"
  shows "mset xs = mset ys"
proof -
  have "set xs = set ys" using assms by (simp add: map_of_inject_set)
  moreover have "distinct xs" "distinct ys" using assms(1,2) by (simp_all add: distinct_map)
  ultimately show ?thesis by (simp add: set_eq_iff_mset_eq_distinct)
qed

lemma sortByConfig_perm:
  assumes d: "distinct (map Name actors)" and m: "mset actors' = mset actors"
  shows "sortByConfig actors' orderBy = sortByConfig actors orderBy"
proof (rule sortByConfig_unique[OF d])
  show "sorted (map (rankKey orderBy) (sortByConfig actors' orderBy))" by (rule sortByConfig_sorted)
  show "mset (sortByConfig actors' orderBy) = mset actors" by (simp add: sortByConfig_mset m)
qed

lemma aggregateStats_order_independent:
  assumes wf: "\<And>f. f \<in> set files \<Longrightarrow> \<exists>stats. calc f = Inr stats \<and> wfStats stats"
    and perm: "mset files' = mset files"
  shows "\<exists>final final'. aggregateStats calc files = Inr final \<and> aggregateStats calc files' = Inr final' \<and>
           map_of final' = map_of final \<and> rankedActors final' config = rankedActors final config"
proof -
  have set_eq: "set files' = set files" using perm by (rule mset_eq_setD)
  from aggregateStats_wf[of files calc, OF wf] obtain final where
    f: "aggregateStats calc files = Inr final" and df: "distinct (map fst final)" and
    mf: "\<And>a. map_of final a =
      (if \<exists>f \<in> set files. fileHas (calc f) a then Some (expectedStat calc files a) else None)"
    by blast
  have wf': "\<And>f. f \<in> set files' \<Longrightarrow> \<exists>stats. calc f = Inr stats \<and> wfStats stats"
    using wf set_eq by simp
  from aggregateStats_wf[of files' calc, OF wf'] obtain final' where
    f': "aggregateStats calc files' = Inr final'" and df': "distinct (map fst final')" and
    mf': "\<And>a. map_of final' a =
      (if \<exists>f \<in> set files'. fileHas (calc f) a then Some (expectedStat calc files' a) else None)"
    by blast
  have meq: "map_of final' = map_of final"
    by (rule ext) (simp add: mf mf' set_eq expectedStat_perm[OF perm])
  have names: "\<And>e. e \<in> set final \<Longrightarrow> Name (snd e) = fst e"
  proof -
    fix e assume "e \<in> set final"
    then have "map_of final (fst e) = Some (snd e)" using df by simp
    then have "snd e = expectedStat calc files (fst e)" by (simp add: mf split: if_splits)
    then show "Name (snd e) = fst e" by (simp add: expectedStat_def)
  qed
  have "map Name (map snd final) = map fst final"
    unfolding map_map by (rule map_cong) (simp_all add: names)
  with df have dn: "distinct (map Name (map snd final))" by (simp only:)
  have "mset final' = mset final" using df' df meq by (rule map_of_eq_mset)
  then have "mset (map snd final') = mset (map snd final)" by simp
  from sortByConfig_perm[OF dn this] have "rankedActors final' config = rankedActors final config"
    by (simp add: rankedActors_def)
  with f f' meq show ?thesis by blast
qed

lemma calculateStats_wf_on_porcelain:
  assumes blame: "\<And>out. gitBlame file = Some out \<Longrightarrow>
                    recordsInBounds (UseCommitter config) (Split out newline)"
    and log: "gitBlame file = Some [] \<Longrightarrow> \<exists>out. gitLog file = Some out \<and> 2 \<le> length (Split out newline)"
  shows "\<exists>stats. calculateStats gitBlame gitLog file config = Inr stats \<and> wfStats stats"
proof -
  have ex: "\<exists>stats. calculateStats gitBlame gitLog file config = Inr stats"
  proof (cases "gitBlame file")
    case None
    then show ?thesis by (simp add: calculateStats_def)
  next
    case (Some out)
    show ?thesis
    proof (cases "length out = 0")
      case True
      with Some log obtain lg where lg: "gitLog file = Some lg" and two: "2 \<le> length (Split lg newline)"
        by auto
      from two have "index (Split lg newline) 0 = Inr (Split lg newline ! 0)"
        and "index (Split lg newline) 1 = Inr (Split lg newline ! 1)"
        by (auto simp add: index_def)
      then have "\<exists>st. infoEmptyFile gitLog file = Inr st" by (simp add: infoEmptyFile_def lg Let_def)
      then obtain st where "infoEmptyFile gitLog file = Inr st" ..
      with True Some show ?thesis by (simp add: calculateStats_def)
    next
      case False
      have "wfStats []" by (simp add: wfStats_def)
      from calcLoop_total[OF blame[OF Some] this, of 0] False Some show ?thesis
        by (simp add: calculateStats_def)
    qed
  qed
  then obtain stats where s: "calculateStats gitBlame gitLog file config = Inr stats" ..
  have "gitBlame file \<noteq> Some [] \<or> gitLog file \<noteq> None" using log by auto
  with s have "wfStats stats" by (rule calculateStats_wf)
  with s show ?thesis by blast
qed

lemma pipeline_deterministic:
  assumes blame: "\<And>f out. f \<in> set files \<Longrightarrow> gitBlame f = Some out \<Longrightarrow>
                    recordsInBounds (UseCommitter config) (Split out newline)"
    and log: "\<And>f. f \<in> set files \<Longrightarrow> gitBlame f = Some [] \<Longrightarrow>
                    \<exists>out. gitLog f = Some out \<and> 2 \<le> length (Split out newline)"
    and perm: "mset files' = mset files"
  shows "\<exists>final final'.
           aggregateStats (\<lambda>f. calculateStats gitBlame gitLog f config) files = Inr final \<and>
           aggregateStats (\<lambda>f. calculateStats gitBlame gitLog f config) files' = Inr final' \<and>
           map_of final' = map_of final \<and> rankedActors final' config = rankedActors final config"
proof (rule aggregateStats_order_independent[OF _ perm])
  fix f assume "f \<in> set files"
  then show "\<exists>stats. calculateStats gitBlame gitLog f config = Inr stats \<and> wfStats stats"
    using blame log by (intro calculateStats_wf_on_porcelain) auto
qed

lemma wfStats_files:
  assumes "wfStats stats"
  shows "fieldOf Files stats a = (if map_of stats a = None then 0 else 1)"
proof (cases "map_of stats a")
  case None
  then show ?thesis by (simp add: fieldOf_def)
next
  case (Some st)
  from wfStats_map_of[OF assms Some] have "Files st = 1" by (simp add: partialStat_def)
  with Some show ?thesis by (simp add: fieldOf_def)
qed

text \<open>
  With well-formed per-file maps, the files of an identity are the number of processed
  files whose map names it: each such file adds exactly 1.
\<close>

lemma sum_list_indicator:
  "sum_list (map (\<lambda>x. if P x then 1 else 0) xs) = (of_nat (length (filter P xs)) :: goint)"
  by (induction xs) simp_all

lemma aggregateStats_files_count:
  assumes wf: "\<And>f. f \<in> set files \<Longrightarrow> \<exists>stats. calc f = Inr stats \<and> wfStats stats"
    and agg: "aggregateStats calc files = Inr final"
    and a: "map_of final a = Some st"
  shows "Files st = of_nat (length (filter (\<lambda>f. fileHas (calc f) a) files))"
proof -
  from aggregateStats_wf[of files calc, OF wf] agg have
    "map_of final a =
      (if \<exists>f \<in> set files. fileHas (calc f) a then Some (expectedStat calc files a) else None)"
    by auto
  with a have "st = expectedStat calc files a" by (simp split: if_splits)
  then have "Files st = sum_list (map (\<lambda>f. fileField Files (calc f) a) files)"
    by (simp add: expectedStat_def)
  also have "\<dots> = sum_list (map (\<lambda>f. if fileHas (calc f) a then 1 else 0) files)"
  proof (rule arg_cong[where f = sum_list], rule map_cong[OF refl])
    fix f assume "f \<in> set files"
    from wf[OF this] obtain stats where s: "calc f = Inr stats" and w: "wfStats stats" by blast
    show "fileField Files (calc f) a = (if fileHas (calc f) a then 1 else 0)"
      by (simp add: fileField_def fileHas_def s wfStats_files[OF w])
  qed
  also have "\<dots> = of_nat (length (filter (\<lambda>f. fileHas (calc f) a) files))"
    by (rule sum_list_indicator)
  finally show ?thesis .
qed

text \<open>
  C2. The final map is to be the same for every order in which the per-file maps are
  merged. It is not after a failed fallback query (the defect of C7): the zero value
  stored for it has a nil commit set. Merged first, it becomes the accumulator of the
  empty identity, and the next file that attributes a commit to that identity makes the
  merge write into the nil map; merged second, it adds nothing.
\<close>

theorem aggregateStats_order_dependent:
  "aggregateStats (\<lambda>file. calculateStats exBlame2 exLog2 file exConfig) [''orphan.txt'', ''anon.txt''] =
     Inl NilMapAssignment \<and>
   aggregateStats (\<lambda>file. calculateStats exBlame2 exLog2 file exConfig) [''anon.txt'', ''orphan.txt''] =
     Inr [([], \<lparr>Name = [], Lines = 0, commitsSet = Some {exC1}, Commits = 1, Files = 1\<rparr>)]"
  by code_simp

section \<open>The files of an identity\<close>

text \<open>
  The files of an identity in the final map are the sum, over the processed files, of the
  files of its entry in the map of each file; a file whose fallback query failed has the
  zero value as its one entry, which adds 0.
\<close>

lemma aggregateStats_files_sum:
  assumes agg: "aggregateStats calc files = Inr final"
    and dist: "\<And>f stats. calc f = Inr stats \<Longrightarrow> distinct (map fst stats)"
    and a: "map_of final a = Some st"
  shows "Files st = sum_list (map (\<lambda>f. fileField Files (calc f) a) files)"
proof -
  from agg obtain results where col: "collect (map calc files) = Inr results"
    by (cases "collect (map calc files)") (simp_all add: aggregateStats_def)
  from agg col obtain acc where mer: "mergeAll results [] = Inr acc" and fin: "final = finalizeAll acc"
    by (cases "mergeAll results []") (auto simp: aggregateStats_def)
  from collect_Inr[OF col] have res: "map calc files = map Inr results" .
  have dr: "\<And>r. r \<in> set results \<Longrightarrow> distinct (map fst r)"
  proof -
    fix r assume "r \<in> set results"
    then have "Inr r \<in> set (map calc files)" unfolding res by simp
    then obtain f where "calc f = Inr r" by auto
    then show "distinct (map fst r)" by (rule dist)
  qed
  from a obtain st0 where s0: "map_of acc a = Some st0" and st: "st = finalize st0"
    by (auto simp: fin map_of_finalizeAll)
  have "Files st = fieldOf Files acc a" by (simp add: st finalize_def fieldOf_def s0)
  also have "\<dots> = sum_list (map (\<lambda>r. entrySum Files r a) results)"
    using mergeAll_field[of Files, OF files_step mer, of a] by (simp add: fieldOf_def)
  also have "\<dots> = sum_list (map (\<lambda>r. fieldOf Files r a) results)"
    using dr by (intro arg_cong[where f = sum_list] map_cong refl entrySum_distinct)
  also have "\<dots> = sum_list (map (\<lambda>x. fileField Files x a) (map Inr results))"
    by (simp add: fileField_def o_def)
  also have "\<dots> = sum_list (map (\<lambda>f. fileField Files (calc f) a) files)"
    unfolding res[symmetric] by (simp add: o_def)
  finally show ?thesis .
qed

lemma calculateStats_files_field:
  "fileField Files (calculateStats gitBlame gitLog f config) a =
     (if fileHas (calculateStats gitBlame gitLog f config) a \<and>
         (gitBlame f \<noteq> Some [] \<or> gitLog f \<noteq> None) then 1 else 0)"
proof (cases "calculateStats gitBlame gitLog f config")
  case (Inl p)
  then show ?thesis by (simp add: fileField_def fileHas_def)
next
  case (Inr stats)
  show ?thesis
  proof (cases "gitBlame f \<noteq> Some [] \<or> gitLog f \<noteq> None")
    case True
    from calculateStats_wf[OF Inr True] have "wfStats stats" .
    from wfStats_files[OF this, of a] True show ?thesis
      by (simp add: fileField_def fileHas_def Inr)
  next
    case False
    then have "calculateStats gitBlame gitLog f config = Inr [([], zeroStats)]"
      by (simp add: calculateStats_def infoEmptyFile_failure zeroStats_def)
    with Inr have "stats = [([], zeroStats)]" by simp
    with False show ?thesis
      by (simp add: fileField_def fieldOf_def Inr zeroStats_def)
  qed
qed

lemma aggregateStats_files_processed:
  assumes agg: "aggregateStats (\<lambda>f. calculateStats gitBlame gitLog f config) files = Inr final"
    and a: "map_of final a = Some st"
  shows "Files st = of_nat (length (filter
           (\<lambda>f. fileHas (calculateStats gitBlame gitLog f config) a \<and>
                (gitBlame f \<noteq> Some [] \<or> gitLog f \<noteq> None)) files))"
proof -
  have "Files st = sum_list (map (\<lambda>f. fileField Files (calculateStats gitBlame gitLog f config) a) files)"
    using agg calculateStats_distinct a by (rule aggregateStats_files_sum)
  also have "\<dots> = sum_list (map (\<lambda>f. if fileHas (calculateStats gitBlame gitLog f config) a \<and>
         (gitBlame f \<noteq> Some [] \<or> gitLog f \<noteq> None) then 1 else 0) files)"
    by (simp only: calculateStats_files_field)
  also have "\<dots> = of_nat (length (filter
           (\<lambda>f. fileHas (calculateStats gitBlame gitLog f config) a \<and>
                (gitBlame f \<noteq> Some [] \<or> gitLog f \<noteq> None)) files))"
    by (rule sum_list_indicator)
  finally show ?thesis .
qed

lemma calculateStats_entry_iff_record:
  assumes blame: "gitBlame file = Some out" and ne: "out \<noteq> []"
    and fol: "authorLinesFollow (Split out newline)"
    and inb: "recordsInBounds (UseCommitter config) (Split out newline)"
  shows "\<exists>stats. calculateStats gitBlame gitLog file config = Inr stats \<and>
           (a \<in> fst ` set (parsedRecords (UseCommitter config) (Split out newline)) \<longleftrightarrow>
            (\<exists>st. map_of stats a = Some st \<and> Files st = 1))"
proof -
  from calculateStats_records[of gitBlame "file" out config gitLog,
      OF blame ne authorLinesFollow_isolated[OF fol] inb]
  obtain stats where c: "calculateStats gitBlame gitLog file config = Inr stats"
    and m: "map_of stats = mapOfRecords (parsedRecords (UseCommitter config) (Split out newline))"
    by blast
  have "a \<in> fst ` set (parsedRecords (UseCommitter config) (Split out newline)) \<longleftrightarrow>
            (\<exists>st. map_of stats a = Some st \<and> Files st = 1)"
    unfolding m by (simp add: mapOfRecords_def recordStat_def)
  with c show ?thesis by blast
qed

text \<open>
  C5. (1) In the map that the extractor returns for a file, every identity has
  \<open>Files = 1\<close>, however many attribution records of the file name it (the zero value
  stored after a failed fallback query, which comes from no record, is left aside).
  (2) On a blame output of the shape that git gives it, the extractor returns a map in
  which an identity has an entry, with \<open>Files = 1\<close>, exactly when one of the records that
  parse names it. (3) Consequently, whenever \<open>aggregateStats\<close> returns, the \<open>Files\<close> of
  an identity in the final map is the number of processed files whose map names it: each
  such file adds exactly 1.
\<close>

theorem files_one_per_processed_file:
  "(calculateStats gitBlame gitLog file config = Inr stats \<and> map_of stats a = Some st \<and>
      (gitBlame file \<noteq> Some [] \<or> gitLog file \<noteq> None) \<longrightarrow> Files st = 1) \<and>
   (gitBlame file = Some out \<and> out \<noteq> [] \<and> authorLinesFollow (Split out newline) \<and>
      recordsInBounds (UseCommitter config) (Split out newline) \<longrightarrow>
      (\<exists>fileStats. calculateStats gitBlame gitLog file config = Inr fileStats \<and>
         (a \<in> fst ` set (parsedRecords (UseCommitter config) (Split out newline)) \<longleftrightarrow>
          (\<exists>entry. map_of fileStats a = Some entry \<and> Files entry = 1)))) \<and>
   (aggregateStats (\<lambda>f. calculateStats gitBlame gitLog f config) files = Inr finalStats \<and>
      map_of finalStats a = Some merged \<longrightarrow>
      Files merged = of_nat (length (filter
        (\<lambda>f. fileHas (calculateStats gitBlame gitLog f config) a \<and>
             (gitBlame f \<noteq> Some [] \<or> gitLog f \<noteq> None)) files)))"
proof (intro conjI impI)
  assume h: "calculateStats gitBlame gitLog file config = Inr stats \<and> map_of stats a = Some st \<and>
      (gitBlame file \<noteq> Some [] \<or> gitLog file \<noteq> None)"
  then have "wfStats stats" using calculateStats_wf by blast
  moreover from h have "map_of stats a = Some st" by simp
  ultimately have "partialStat a st" by (rule wfStats_map_of)
  then show "Files st = 1" by (simp add: partialStat_def)
next
  assume h: "gitBlame file = Some out \<and> out \<noteq> [] \<and> authorLinesFollow (Split out newline) \<and>
      recordsInBounds (UseCommitter config) (Split out newline)"
  then show "\<exists>fileStats. calculateStats gitBlame gitLog file config = Inr fileStats \<and>
         (a \<in> fst ` set (parsedRecords (UseCommitter config) (Split out newline)) \<longleftrightarrow>
          (\<exists>entry. map_of fileStats a = Some entry \<and> Files entry = 1))"
    using calculateStats_entry_iff_record by blast
next
  assume h: "aggregateStats (\<lambda>f. calculateStats gitBlame gitLog f config) files = Inr finalStats \<and>
      map_of finalStats a = Some merged"
  then show "Files merged = of_nat (length (filter
        (\<lambda>f. fileHas (calculateStats gitBlame gitLog f config) a \<and>
             (gitBlame f \<noteq> Some [] \<or> gitLog f \<noteq> None)) files))"
    using aggregateStats_files_processed by blast
qed

text \<open>
  In \<open>c.go\<close>, \<open>Dev1\<close> owns two runs of lines separated by a run of \<open>Dev2\<close>, and has
  \<open>Files = 1\<close>. Over the four files, \<open>Dev2\<close> is named by \<open>b.go\<close> and \<open>c.go\<close> and has
  \<open>Files = 2\<close>.
\<close>

theorem files_one_per_processed_file_witness:
  "calculateStats exBlame exLog ''c.go'' exConfig = Inr [(''Dev1'', exDev1c), (''Dev2'', exDev2c)] \<and>
   map_of [(''Dev1'', exDev1c), (''Dev2'', exDev2c)] ''Dev1'' = Some exDev1c \<and>
   exBlame ''c.go'' \<noteq> Some [] \<and>
   Files exDev1c = 1 \<and>
   exBlame ''c.go'' = Some exOutC \<and> exOutC \<noteq> [] \<and>
   authorLinesFollow (Split exOutC newline) \<and>
   recordsInBounds (UseCommitter exConfig) (Split exOutC newline) \<and>
   parsedRecords (UseCommitter exConfig) (Split exOutC newline) =
     [(''Dev1'', exC1, 2), (''Dev2'', exC2, 3), (''Dev1'', exC2, 4)] \<and>
   (\<exists>fileStats. calculateStats exBlame exLog ''c.go'' exConfig = Inr fileStats \<and>
      (\<exists>entry. map_of fileStats ''Dev1'' = Some entry \<and> Files entry = 1)) \<and>
   aggregateStats (\<lambda>f. calculateStats exBlame exLog f exConfig) exFiles =
     Inr [(''Dev1'', exDev1All), (''Dev2'', exDev2All), (''Carol'', exCarolAll)] \<and>
   map_of [(''Dev1'', exDev1All), (''Dev2'', exDev2All), (''Carol'', exCarolAll)] ''Dev2'' = Some exDev2All \<and>
   filter (\<lambda>f. fileHas (calculateStats exBlame exLog f exConfig) ''Dev2'' \<and>
                (exBlame f \<noteq> Some [] \<or> exLog f \<noteq> None)) exFiles = [''b.go'', ''c.go''] \<and>
   Files exDev2All = 2"
proof -
  have h1: "calculateStats exBlame exLog ''c.go'' exConfig = Inr [(''Dev1'', exDev1c), (''Dev2'', exDev2c)]"
    by code_simp
  have h2: "map_of [(''Dev1'', exDev1c), (''Dev2'', exDev2c)] ''Dev1'' = Some exDev1c"
    by simp
  have h3: "exBlame ''c.go'' \<noteq> Some []"
    by code_simp
  then have h3': "exBlame ''c.go'' \<noteq> Some [] \<or> exLog ''c.go'' \<noteq> None" ..
  have h4: "exBlame ''c.go'' = Some exOutC" by (simp add: exBlame_def exOutC_def)
  have h5: "exOutC \<noteq> []" by code_simp
  have h6: "authorLinesFollow (Split exOutC newline)" by code_simp
  have h7: "recordsInBounds (UseCommitter exConfig) (Split exOutC newline)" by code_simp
  have h8: "parsedRecords (UseCommitter exConfig) (Split exOutC newline) =
     [(''Dev1'', exC1, 2), (''Dev2'', exC2, 3), (''Dev1'', exC2, 4)]" by code_simp
  have h9: "aggregateStats (\<lambda>f. calculateStats exBlame exLog f exConfig) exFiles =
     Inr [(''Dev1'', exDev1All), (''Dev2'', exDev2All), (''Carol'', exCarolAll)]" by code_simp
  have h10: "map_of [(''Dev1'', exDev1All), (''Dev2'', exDev2All), (''Carol'', exCarolAll)] ''Dev2'' = Some exDev2All"
    by simp
  have h11: "filter (\<lambda>f. fileHas (calculateStats exBlame exLog f exConfig) ''Dev2'' \<and>
                (exBlame f \<noteq> Some [] \<or> exLog f \<noteq> None)) exFiles = [''b.go'', ''c.go'']"
    by code_simp
  note one = files_one_per_processed_file[of exBlame exLog "''c.go''" exConfig
      "[(''Dev1'', exDev1c), (''Dev2'', exDev2c)]" "''Dev1''" exDev1c exOutC]
  note two = files_one_per_processed_file[of exBlame exLog _ exConfig _ "''Dev2''" _ _ exFiles
      "[(''Dev1'', exDev1All), (''Dev2'', exDev2All), (''Carol'', exCarolAll)]" exDev2All]
  from one h1 h2 h3' have c1: "Files exDev1c = 1" by blast
  from one h4 h5 h6 h7 have "\<exists>fileStats. calculateStats exBlame exLog ''c.go'' exConfig = Inr fileStats \<and>
         (''Dev1'' \<in> fst ` set (parsedRecords (UseCommitter exConfig) (Split exOutC newline)) \<longleftrightarrow>
          (\<exists>entry. map_of fileStats ''Dev1'' = Some entry \<and> Files entry = 1))" by blast
  then have c2: "\<exists>fileStats. calculateStats exBlame exLog ''c.go'' exConfig = Inr fileStats \<and>
      (\<exists>entry. map_of fileStats ''Dev1'' = Some entry \<and> Files entry = 1)"
    unfolding h8 by simp
  from two h9 h10 have "Files exDev2All = of_nat (length (filter
        (\<lambda>f. fileHas (calculateStats exBlame exLog f exConfig) ''Dev2'' \<and>
             (exBlame f \<noteq> Some [] \<or> exLog f \<noteq> None)) exFiles))" by blast
  then have c3: "Files exDev2All = 2" unfolding h11 by simp
  from h1 h2 h3 c1 h4 h5 h6 h7 h8 c2 h9 h10 h11 c3 show ?thesis by (intro conjI)
qed

end
